theory Spec2Isabelle
  imports Main "HOL-Library.Sublist"
begin

section \<open>Strings\<close>

text \<open>
  A Python \<^verbatim>\<open>str\<close> is modelled as a \<^typ>\<open>string\<close>: a list of characters, each
  character one code point in the range 0..255. The tables below (white space, lower
  case, word characters) are Python's tables for exactly these code points. The
  backslash is written \<open>CHR 0x5C\<close>, the double quote \<open>CHR 0x22\<close> (the string \<open>DQ\<close> in
  the examples) and the single quote \<open>CHR 0x27\<close>.
\<close>

abbreviation DQ :: string where
  "DQ \<equiv> [CHR 0x22]"

definition startswith :: "string \<Rightarrow> string \<Rightarrow> bool" where
  "startswith s pre = prefix pre s"

definition endswith :: "string \<Rightarrow> string \<Rightarrow> bool" where
  "endswith s suf = suffix suf s"

text \<open>The characters for which \<^verbatim>\<open>str.isspace\<close> holds; \<^verbatim>\<open>\s\<close> of a pattern matches the same.\<close>

definition whitespace :: "char list" where
  "whitespace = [CHR 0x09, CHR 0x0A, CHR 0x0B, CHR 0x0C, CHR 0x0D, CHR 0x1C, CHR 0x1D, CHR 0x1E,
                 CHR 0x1F, CHR 0x20, CHR 0x85, CHR 0xA0]"

definition isspace :: "char \<Rightarrow> bool" where
  "isspace c = (c \<in> set whitespace)"

definition strip :: "string \<Rightarrow> string" where
  "strip s = rev (dropWhile isspace (rev (dropWhile isspace s)))"

text \<open>\<^verbatim>\<open>str.lower\<close>: the upper-case letters and what each becomes.\<close>

definition upper_table :: "(char \<times> char) list" where
  "upper_table =
     zip (''ABCDEFGHIJKLMNOPQRSTUVWXYZ''
          @ [CHR 0xC0, CHR 0xC1, CHR 0xC2, CHR 0xC3, CHR 0xC4, CHR 0xC5, CHR 0xC6, CHR 0xC7,
               CHR 0xC8, CHR 0xC9, CHR 0xCA, CHR 0xCB, CHR 0xCC, CHR 0xCD, CHR 0xCE, CHR 0xCF,
               CHR 0xD0, CHR 0xD1, CHR 0xD2, CHR 0xD3, CHR 0xD4, CHR 0xD5, CHR 0xD6, CHR 0xD8,
               CHR 0xD9, CHR 0xDA, CHR 0xDB, CHR 0xDC, CHR 0xDD, CHR 0xDE])
         (''abcdefghijklmnopqrstuvwxyz''
          @ [CHR 0xE0, CHR 0xE1, CHR 0xE2, CHR 0xE3, CHR 0xE4, CHR 0xE5, CHR 0xE6, CHR 0xE7,
               CHR 0xE8, CHR 0xE9, CHR 0xEA, CHR 0xEB, CHR 0xEC, CHR 0xED, CHR 0xEE, CHR 0xEF,
               CHR 0xF0, CHR 0xF1, CHR 0xF2, CHR 0xF3, CHR 0xF4, CHR 0xF5, CHR 0xF6, CHR 0xF8,
               CHR 0xF9, CHR 0xFA, CHR 0xFB, CHR 0xFC, CHR 0xFD, CHR 0xFE])"

definition lower_char :: "char \<Rightarrow> char" where
  "lower_char c = (case map_of upper_table c of Some d \<Rightarrow> d | None \<Rightarrow> c)"

definition lower :: "string \<Rightarrow> string" where
  "lower s = map lower_char s"

datatype py_error =
    ValueError      \<comment> \<open>\<^verbatim>\<open>str.split\<close> with an empty separator\<close>
  | TemplateError   \<comment> \<open>the exception of \<^verbatim>\<open>re.sub\<close> for a replacement template it cannot compile\<close>

section \<open>Engine 1: \<^verbatim>\<open>fix_pages_paths.py\<close>\<close>

subsection \<open>\<^verbatim>\<open>is_external\<close>\<close>

definition is_external :: "string \<Rightarrow> bool" where
  "is_external url =
     (let u = strip url; low = lower u
      in startswith low ''http://''
         \<or> startswith low ''https://''
         \<or> startswith low ''mailto:''
         \<or> startswith low ''tel:''
         \<or> startswith low ''data:''
         \<or> startswith low ''javascript:''
         \<or> startswith low ''//''
         \<or> startswith low ''#'')"

subsection \<open>The replacement template of \<^verbatim>\<open>re.sub\<close>\<close>

text \<open>
  \<^verbatim>\<open>normalize_root_path\<close> calls \<^verbatim>\<open>re.sub(pattern, f"/{repo}", p)\<close>. A replacement
  given as a string is a template: \<^verbatim>\<open>re\<close> compiles it before it searches, and a
  backslash in it starts an escape. \<open>parse_template\<close> follows \<^verbatim>\<open>parse_template\<close> of
  CPython's \<^verbatim>\<open>re/_parser.py\<close> (version 3.12) for a pattern that has no capturing group,
  as the pattern here: a template is a list of literal characters and references to
  group 0, the whole match. Every exception of the compiler is the one value
  \<open>TemplateError\<close>.
\<close>

datatype titem = TLit char | TGroup0

definition is_digit :: "char \<Rightarrow> bool" where
  "is_digit c = (c \<in> set ''0123456789'')"

definition is_octdigit :: "char \<Rightarrow> bool" where
  "is_octdigit c = (c \<in> set ''01234567'')"

definition is_ascii_letter :: "char \<Rightarrow> bool" where
  "is_ascii_letter c =
     (c \<in> set ''abcdefghijklmnopqrstuvwxyzABCDEFGHIJKLMNOPQRSTUVWXYZ'')"

definition ESCAPES :: "(char \<times> char) list" where
  "ESCAPES =
     [(CHR ''a'', CHR 0x07), (CHR ''b'', CHR 0x08), (CHR ''f'', CHR 0x0C),
      (CHR ''n'', CHR 0x0A), (CHR ''r'', CHR 0x0D), (CHR ''t'', CHR 0x09),
      (CHR ''v'', CHR 0x0B), (CHR 0x5C, CHR 0x5C)]"

text \<open>The number that a string of digits denotes in base 8 (\<^verbatim>\<open>int(s, 8)\<close>).\<close>

definition octal :: "string \<Rightarrow> nat" where
  "octal ds = foldl (\<lambda>n d. 8 * n + (of_char d - 48)) 0 ds"

definition lits :: "string \<Rightarrow> py_error + titem list \<Rightarrow> py_error + titem list" where
  "lits cs r = (case r of Inl e \<Rightarrow> Inl e | Inr t \<Rightarrow> Inr (map TLit cs @ t))"

definition group0 :: "py_error + titem list \<Rightarrow> py_error + titem list" where
  "group0 r = (case r of Inl e \<Rightarrow> Inl e | Inr t \<Rightarrow> Inr (TGroup0 # t))"

text \<open>
  The branches, in the order of the source: \<^verbatim>\<open>\g<name>\<close> is accepted only when the
  name is a decimal number that is 0 (any other number is an invalid group reference,
  any other name an unknown group, more than 4300 digits are refused by \<^verbatim>\<open>int\<close>);
  \<^verbatim>\<open>\0\<close> with up to two more octal digits is that character; a digit 1 to 9 starts a
  three-digit octal escape up to \<^verbatim>\<open>\377\<close> or else a reference to a group that does not
  exist; a letter of \<open>ESCAPES\<close> is its control character; any other ASCII letter is a
  bad escape; any other character stays, with its backslash. A backslash at the end
  is an error.
\<close>

function parse_template :: "string \<Rightarrow> py_error + titem list" where
  "parse_template [] = Inr []"
| "parse_template (c # cs) =
     (if c \<noteq> CHR 0x5C then lits [c] (parse_template cs)
      else case cs of
        [] \<Rightarrow> Inl TemplateError
      | d # ds \<Rightarrow>
          if d = CHR ''g'' then
            (case ds of
               [] \<Rightarrow> Inl TemplateError
             | b # es \<Rightarrow>
                 let name = takeWhile is_digit es; rest = dropWhile is_digit es
                 in if b = CHR ''<'' \<and> name \<noteq> [] \<and> startswith rest ''>''
                       \<and> length name \<le> 4300 \<and> octal name = 0
                    then group0 (parse_template (tl rest))
                    else Inl TemplateError)
          else if d = CHR ''0'' then
            (let more = takeWhile is_octdigit (take 2 ds)
             in lits [char_of (octal more mod 256)] (parse_template (drop (length more) ds)))
          else if is_digit d then
            (case ds of
               e # f # fs \<Rightarrow>
                 if is_octdigit d \<and> is_octdigit e \<and> is_octdigit f \<and> octal [d, e, f] \<le> 255
                 then lits [char_of (octal [d, e, f])] (parse_template fs)
                 else Inl TemplateError
             | _ \<Rightarrow> Inl TemplateError)
          else
            (case map_of ESCAPES d of
               Some ch \<Rightarrow> lits [ch] (parse_template ds)
             | None \<Rightarrow>
                 if is_ascii_letter d then Inl TemplateError
                 else lits [c, d] (parse_template ds)))"
  by pat_completeness auto
termination
proof (relation "measure length")
  fix c cs d ds b es name rest
  assume "rest = dropWhile is_digit es"
  then have "length rest \<le> length es" by (simp add: length_dropWhile_le)
  then show "(tl rest, c # cs) \<in> measure length" if "cs = d # ds" "ds = b # es"
    using that by simp
qed auto

fun expand_template :: "titem list \<Rightarrow> string \<Rightarrow> string" where
  "expand_template [] m = []"
| "expand_template (TLit c # t) m = c # expand_template t m"
| "expand_template (TGroup0 # t) m = m @ expand_template t m"

subsection \<open>\<^verbatim>\<open>normalize_root_path\<close>\<close>

text \<open>
  The search of \<^verbatim>\<open>^/{re.escape(repo)}/Cyb3Raya(?=/|$)\<close> in \<open>p\<close>. The escaped \<open>repo\<close>
  matches itself, \<^verbatim>\<open>^\<close> matches at the start only, and \<^verbatim>\<open>$\<close> matches at the end or
  before a line feed that ends the string.
\<close>

definition double_prefix_match :: "string \<Rightarrow> string \<Rightarrow> bool" where
  "double_prefix_match repo p =
     (let m = ''/'' @ repo @ ''/Cyb3Raya''; rest = drop (length m) p
      in startswith p m \<and> (startswith rest ''/'' \<or> rest = [] \<or> rest = [CHR 0x0A]))"

text \<open>
  The call of \<^verbatim>\<open>re.sub\<close>: the template is compiled first; the pattern can match at the
  start only, so at most one match is replaced, by the expanded template.
\<close>

definition sub_double_prefix :: "string \<Rightarrow> string \<Rightarrow> py_error + string" where
  "sub_double_prefix repo p =
     (case parse_template (''/'' @ repo) of
        Inl e \<Rightarrow> Inl e
      | Inr t \<Rightarrow>
          (let m = ''/'' @ repo @ ''/Cyb3Raya''
           in if double_prefix_match repo p
              then Inr (expand_template t m @ drop (length m) p)
              else Inr p))"

definition normalize_root_path :: "string \<Rightarrow> string \<Rightarrow> py_error + string" where
  "normalize_root_path path repo =
     (let p = strip path
      in if \<not> startswith p ''/'' then Inr path
         else if is_external p then Inr path
         else
           (let good = ''/'' @ repo
            in if p = good \<or> startswith p (good @ ''/'') then sub_double_prefix repo p
               else if p = ''/Cyb3Raya'' \<or> startswith p ''/Cyb3Raya/'' then
                 (let remainder = drop (length ''/Cyb3Raya'') p;
                      remainder = (if remainder = [] then ''/'' else remainder)
                  in Inr (''/'' @ repo @ remainder))
               else Inr (''/'' @ repo @ p)))"

subsection \<open>The two patterns\<close>

text \<open>The characters \<^verbatim>\<open>\w\<close> matches; \<^verbatim>\<open>\b\<close> is a position with one of them on one side only.\<close>

definition word_chars :: "char list" where
  "word_chars =
     ''0123456789ABCDEFGHIJKLMNOPQRSTUVWXYZ_abcdefghijklmnopqrstuvwxyz''
     @ [CHR 0xAA, CHR 0xB2, CHR 0xB3, CHR 0xB5, CHR 0xB9, CHR 0xBA, CHR 0xBC, CHR 0xBD,
        CHR 0xBE, CHR 0xC0, CHR 0xC1, CHR 0xC2, CHR 0xC3, CHR 0xC4, CHR 0xC5, CHR 0xC6,
        CHR 0xC7, CHR 0xC8, CHR 0xC9, CHR 0xCA, CHR 0xCB, CHR 0xCC, CHR 0xCD, CHR 0xCE,
        CHR 0xCF, CHR 0xD0, CHR 0xD1, CHR 0xD2, CHR 0xD3, CHR 0xD4, CHR 0xD5, CHR 0xD6,
        CHR 0xD8, CHR 0xD9, CHR 0xDA, CHR 0xDB, CHR 0xDC, CHR 0xDD, CHR 0xDE, CHR 0xDF,
        CHR 0xE0, CHR 0xE1, CHR 0xE2, CHR 0xE3, CHR 0xE4, CHR 0xE5, CHR 0xE6, CHR 0xE7,
        CHR 0xE8, CHR 0xE9, CHR 0xEA, CHR 0xEB, CHR 0xEC, CHR 0xED, CHR 0xEE, CHR 0xEF,
        CHR 0xF0, CHR 0xF1, CHR 0xF2, CHR 0xF3, CHR 0xF4, CHR 0xF5, CHR 0xF6, CHR 0xF8,
        CHR 0xF9, CHR 0xFA, CHR 0xFB, CHR 0xFC, CHR 0xFD, CHR 0xFE, CHR 0xFF]"

definition is_word :: "char \<Rightarrow> bool" where
  "is_word c = (c \<in> set word_chars)"

text \<open>
  The regular expressions the two patterns are made of: \<open>LitI c\<close> is the character \<open>c\<close>
  under \<^verbatim>\<open>re.IGNORECASE\<close>, \<open>Cls neg cs\<close> a character class (negated when \<open>neg\<close>),
  \<open>Many neg cs\<close> the greedy \<^verbatim>\<open>*\<close> of a class, \<open>Opt\<close> the greedy \<^verbatim>\<open>?\<close>, \<open>WordB\<close> is
  \<^verbatim>\<open>\b\<close>.
\<close>

datatype regex =
    Eps
  | LitI char
  | Cls bool "char list"
  | Cat regex regex
  | Alt regex regex
  | Many bool "char list"
  | Opt regex
  | WordB

definition in_class :: "bool \<Rightarrow> char list \<Rightarrow> char \<Rightarrow> bool" where
  "in_class neg cs c = ((c \<in> set cs) \<noteq> neg)"

definition at_boundary :: "char option \<Rightarrow> string \<Rightarrow> bool" where
  "at_boundary prev s =
     ((case prev of None \<Rightarrow> False | Some c \<Rightarrow> is_word c)
      \<noteq> (case s of [] \<Rightarrow> False | c # _ \<Rightarrow> is_word c))"

text \<open>
  A backtracking matcher. \<open>prev\<close> is the character before the position, \<open>s\<close> the text from
  the position on, and \<open>k\<close> what remains to be matched: an alternative, a repetition or an
  option that was taken is given up when \<open>k\<close> fails behind it, in the order in which
  \<^verbatim>\<open>re\<close> tries them (left alternative first, longest repetition first).
\<close>

fun rmatch :: "regex \<Rightarrow> char option \<Rightarrow> string \<Rightarrow> (char option \<Rightarrow> string \<Rightarrow> 'r option) \<Rightarrow> 'r option" where
  "rmatch Eps prev s k = k prev s"
| "rmatch (LitI x) prev [] k = None"
| "rmatch (LitI x) prev (c # s) k = (if lower_char c = lower_char x then k (Some c) s else None)"
| "rmatch (Cls neg cs) prev [] k = None"
| "rmatch (Cls neg cs) prev (c # s) k = (if in_class neg cs c then k (Some c) s else None)"
| "rmatch (Cat a b) prev s k = rmatch a prev s (\<lambda>prev' s'. rmatch b prev' s' k)"
| "rmatch (Alt a b) prev s k =
     (case rmatch a prev s k of Some r \<Rightarrow> Some r | None \<Rightarrow> rmatch b prev s k)"
| "rmatch (Many neg cs) prev [] k = k prev []"
| "rmatch (Many neg cs) prev (c # s) k =
     (if in_class neg cs c
      then (case rmatch (Many neg cs) (Some c) s k of Some r \<Rightarrow> Some r | None \<Rightarrow> k prev (c # s))
      else k prev (c # s))"
| "rmatch (Opt a) prev s k =
     (case rmatch a prev s k of Some r \<Rightarrow> Some r | None \<Rightarrow> k prev s)"
| "rmatch WordB prev s k = (if at_boundary prev s then k prev s else None)"

text \<open>A regular expression that cannot match without reading a character.\<close>

fun consumes :: "regex \<Rightarrow> bool" where
  "consumes Eps = False"
| "consumes (LitI x) = True"
| "consumes (Cls neg cs) = True"
| "consumes (Cat a b) = (consumes a \<or> consumes b)"
| "consumes (Alt a b) = (consumes a \<and> consumes b)"
| "consumes (Many neg cs) = False"
| "consumes (Opt a) = False"
| "consumes WordB = False"

definition seq :: "regex list \<Rightarrow> regex" where
  "seq rs = foldr Cat rs Eps"

definition lit :: "string \<Rightarrow> regex" where
  "lit w = seq (map LitI w)"

definition quotes :: "char list" where
  "quotes = [CHR 0x22, CHR 0x27]"

text \<open>
  A pattern is its three named groups \<^verbatim>\<open>prefix\<close>, \<^verbatim>\<open>path\<close> and \<^verbatim>\<open>suffix\<close>, which follow
  one another. Under \<^verbatim>\<open>re.VERBOSE\<close> the white space between them is not part of the
  pattern.
\<close>

record pattern =
  prefix_group :: regex
  path_group :: regex
  suffix_group :: regex

definition ATTR_PATTERN :: pattern where
  "ATTR_PATTERN =
     \<lparr> prefix_group =
         seq [WordB, Alt (lit ''href'') (Alt (lit ''src'') (lit ''action'')),
              Many False whitespace, LitI CHR ''='', Many False whitespace, Cls False quotes],
       path_group = Many True quotes,
       suffix_group = Cls False quotes \<rparr>"

definition CSS_URL_PATTERN :: pattern where
  "CSS_URL_PATTERN =
     \<lparr> prefix_group =
         seq [WordB, lit ''url'', LitI CHR ''('', Many False whitespace, Opt (Cls False quotes)],
       path_group = Many True (CHR '')'' # quotes),
       suffix_group = seq [Opt (Cls False quotes), Many False whitespace, LitI CHR '')''] \<rparr>"

text \<open>A match: the texts of the three groups.\<close>

record groups =
  m_prefix :: string
  m_path :: string
  m_suffix :: string

text \<open>
  The match of a pattern at a position, if there is one: the groups, the last character
  of the match and the text behind it.
\<close>

definition match_at :: "pattern \<Rightarrow> char option \<Rightarrow> string \<Rightarrow> (groups \<times> char option \<times> string) option" where
  "match_at pat prev s =
     rmatch (prefix_group pat) prev s (\<lambda>p1 s1.
       rmatch (path_group pat) p1 s1 (\<lambda>p2 s2.
         rmatch (suffix_group pat) p2 s2 (\<lambda>p3 s3.
           Some (\<lparr> m_prefix = take (length s - length s1) s,
                    m_path = take (length s1 - length s2) s1,
                    m_suffix = take (length s2 - length s3) s2 \<rparr>, p3, s3))))"

subsection \<open>\<^verbatim>\<open>re.sub\<close> with a function, and \<^verbatim>\<open>rewrite_text\<close>\<close>

definition prepend :: "string \<Rightarrow> py_error + (string \<times> 'st) \<Rightarrow> py_error + (string \<times> 'st)" where
  "prepend u r = (case r of Inl e \<Rightarrow> Inl e | Inr (out, st) \<Rightarrow> Inr (u @ out, st))"

text \<open>
  \<^verbatim>\<open>pattern.sub(repl, text)\<close>: the text is scanned from the left; where the pattern
  matches, the match is replaced by what \<open>repl\<close> returns and the scan goes on behind the
  match; a character at which nothing matches is copied. \<open>repl\<close> changes the variable
  \<^verbatim>\<open>count\<close> of \<^verbatim>\<open>rewrite_text\<close>, the state \<open>st\<close> here, and an exception it raises ends
  the scan. Both patterns of the program consume at least one character (lemma
  \<open>match_at_consumes\<close> below), so no match is empty and none starts at the end of the text.
\<close>

function re_sub ::
  "pattern \<Rightarrow> (groups \<Rightarrow> 'st \<Rightarrow> py_error + (string \<times> 'st)) \<Rightarrow> char option \<Rightarrow> string \<Rightarrow> 'st
     \<Rightarrow> py_error + (string \<times> 'st)" where
  "re_sub pat repl prev [] st = Inr ([], st)"
| "re_sub pat repl prev (c # cs) st =
     (case match_at pat prev (c # cs) of
        None \<Rightarrow> prepend [c] (re_sub pat repl (Some c) cs st)
      | Some (m, prev', rest) \<Rightarrow>
          if length rest \<le> length cs
          then (case repl m st of
                  Inl e \<Rightarrow> Inl e
                | Inr (new, st') \<Rightarrow> prepend new (re_sub pat repl prev' rest st'))
          else prepend [c] (re_sub pat repl (Some c) cs st))"
  by pat_completeness auto
termination
  by (relation "measure (\<lambda>(pat, repl, prev, s, st). length s)") auto

text \<open>The matches that this scan finds (\<^verbatim>\<open>pattern.finditer\<close>).\<close>

function re_finditer :: "pattern \<Rightarrow> char option \<Rightarrow> string \<Rightarrow> groups list" where
  "re_finditer pat prev [] = []"
| "re_finditer pat prev (c # cs) =
     (case match_at pat prev (c # cs) of
        None \<Rightarrow> re_finditer pat (Some c) cs
      | Some (m, prev', rest) \<Rightarrow>
          if length rest \<le> length cs then m # re_finditer pat prev' rest
          else re_finditer pat (Some c) cs)"
  by pat_completeness auto
termination
  by (relation "measure (\<lambda>(pat, prev, s). length s)") auto

text \<open>The two nested functions of \<^verbatim>\<open>rewrite_text\<close>; \<open>cnt\<close> is its variable \<^verbatim>\<open>count\<close>.\<close>

definition repl_attr :: "string \<Rightarrow> groups \<Rightarrow> int \<Rightarrow> py_error + (string \<times> int)" where
  "repl_attr repo m cnt =
     (let old = m_path m
      in case (if startswith (strip old) ''/'' then normalize_root_path old repo else Inr old) of
           Inl e \<Rightarrow> Inl e
         | Inr new \<Rightarrow>
             Inr (m_prefix m @ new @ m_suffix m, if new \<noteq> old then cnt + 1 else cnt))"

definition repl_css :: "string \<Rightarrow> groups \<Rightarrow> int \<Rightarrow> py_error + (string \<times> int)" where
  "repl_css repo m cnt =
     (let old = m_path m
      in case (if startswith (strip old) ''/'' then normalize_root_path old repo else Inr old) of
           Inl e \<Rightarrow> Inl e
         | Inr new \<Rightarrow>
             Inr (m_prefix m @ new @ m_suffix m, if new \<noteq> old then cnt + 1 else cnt))"

definition rewrite_text :: "string \<Rightarrow> string \<Rightarrow> py_error + (string \<times> int)" where
  "rewrite_text text repo =
     (case re_sub ATTR_PATTERN (repl_attr repo) None text 0 of
        Inl e \<Rightarrow> Inl e
      | Inr (out, cnt) \<Rightarrow> re_sub CSS_URL_PATTERN (repl_css repo) None out cnt)"

section \<open>Engine 2: \<^verbatim>\<open>fix_paths.py\<close>\<close>

text \<open>
  \<^verbatim>\<open>s.replace(old, new)\<close>: the text is scanned from the left; where \<open>old\<close> starts, it
  is replaced and the scan goes on behind it, so the occurrences replaced do not overlap.
  For an empty \<open>old\<close> Python puts \<open>new\<close> before every character and at the end.
\<close>

function replace_scan :: "string \<Rightarrow> string \<Rightarrow> string \<Rightarrow> string" where
  "replace_scan old new [] = []"
| "replace_scan old new (c # cs) =
     (if old \<noteq> [] \<and> prefix old (c # cs)
      then new @ replace_scan old new (drop (length old) (c # cs))
      else c # replace_scan old new cs)"
  by pat_completeness auto
termination
  by (relation "measure (\<lambda>(old, new, s). length s)") (auto simp: neq_Nil_conv)

definition py_replace :: "string \<Rightarrow> string \<Rightarrow> string \<Rightarrow> string" where
  "py_replace s old new =
     (if old = [] then new @ concat (map (\<lambda>c. c # new) s) else replace_scan old new s)"

text \<open>
  \<^verbatim>\<open>s.split(sep)\<close>: the segments between the occurrences of \<open>sep\<close> found by the same
  scan; an empty separator raises \<^verbatim>\<open>ValueError\<close>.
\<close>

function split_scan :: "string \<Rightarrow> string \<Rightarrow> string list" where
  "split_scan sep [] = [[]]"
| "split_scan sep (c # cs) =
     (if sep \<noteq> [] \<and> prefix sep (c # cs)
      then [] # split_scan sep (drop (length sep) (c # cs))
      else (let segs = split_scan sep cs in (c # hd segs) # tl segs))"
  by pat_completeness auto
termination
  by (relation "measure (\<lambda>(sep, s). length s)") (auto simp: neq_Nil_conv)

definition py_split :: "string \<Rightarrow> string \<Rightarrow> py_error + string list" where
  "py_split s sep = (if sep = [] then Inl ValueError else Inr (split_scan sep s))"

text \<open>The two \<^verbatim>\<open>if\<close> statements that make a prefix start and end with a slash.\<close>

definition normalize_prefix :: "string \<Rightarrow> string" where
  "normalize_prefix pre =
     (let p = pre;
          p = (if \<not> startswith p ''/'' then ''/'' @ p else p);
          p = (if \<not> endswith p ''/'' then p @ ''/'' else p)
      in p)"

text \<open>
  The loop of \<^verbatim>\<open>apply_replacements\<close>, with its two variables \<open>new_content\<close> and
  \<open>total\<close> (here \<open>tot\<close>) passed along.
\<close>

fun apply_loop :: "string list \<Rightarrow> string \<Rightarrow> int \<Rightarrow> py_error + (string \<times> int)" where
  "apply_loop [] new_content tot = Inr (new_content, tot)"
| "apply_loop (pre # rest) new_content tot =
     (if pre = [] then apply_loop rest new_content tot
      else
        (let p = normalize_prefix pre;
             before = new_content;
             new_content' = py_replace new_content p ''/''
         in case py_split before p of
              Inl e \<Rightarrow> Inl e
            | Inr segs \<Rightarrow> apply_loop rest new_content' (tot + max 0 (int (length segs) - 1))))"

definition apply_replacements :: "string \<Rightarrow> string list \<Rightarrow> py_error + (string \<times> int)" where
  "apply_replacements content bad_prefixes = apply_loop bad_prefixes content 0"

section \<open>Properties of the string functions\<close>

lemma strip_fixed:
  assumes "s = [] \<or> (\<not> isspace (hd s) \<and> \<not> isspace (last s))"
  shows "strip s = s"
proof (cases s)
  case Nil
  then show ?thesis by (simp add: strip_def)
next
  case (Cons x xs)
  with assms have h: "\<not> isspace x" and l: "\<not> isspace (last s)" by auto
  have a: "dropWhile isspace s = s" using Cons h by simp
  obtain y ys where r: "rev s = y # ys" using Cons by (cases "rev s") auto
  then have "y = last s" using Cons by (metis hd_rev list.sel(1) list.distinct(1))
  then have "dropWhile isspace (rev s) = rev s" using l unfolding r by simp
  with a show ?thesis by (simp add: strip_def)
qed

lemma strip_ends:
  assumes "strip s \<noteq> []"
  shows "\<not> isspace (hd (strip s)) \<and> \<not> isspace (last (strip s))"
proof -
  define a where "a = dropWhile isspace s"
  define b where "b = dropWhile isspace (rev a)"
  have sb: "strip s = rev b" by (simp add: strip_def a_def b_def)
  with assms have bne: "b \<noteq> []" by simp
  then have hb: "\<not> isspace (hd b)" unfolding b_def by (rule hd_dropWhile)
  have "suffix b (rev a)" unfolding b_def by (rule suffix_dropWhile)
  then obtain zs where za: "rev a = zs @ b" by (auto simp: suffix_def)
  with bne have "last b = last (rev a)" by simp
  moreover have ane: "a \<noteq> []" using za bne by auto
  ultimately have "last b = hd a" by (simp add: last_rev)
  moreover have "\<not> isspace (hd a)" using ane unfolding a_def by (rule hd_dropWhile)
  ultimately show ?thesis using hb bne sb by (simp add: hd_rev last_rev)
qed

lemma strip_idem: "strip (strip s) = strip s"
  using strip_ends [of s] by (intro strip_fixed) blast

lemma not_space_slash: "\<not> isspace CHR ''/''"
  by (simp add: isspace_def whitespace_def)

lemma startswith_Cons: "startswith s (c # cs) \<longleftrightarrow> (\<exists>t. s = c # t \<and> startswith t cs)"
  by (cases s) (auto simp: startswith_def)

lemma startswith_Nil: "startswith s []"
  by (simp add: startswith_def)

lemma startswith_append: "startswith (u @ v) u"
  by (simp add: startswith_def)

lemma is_external_strip: "is_external (strip s) = is_external s"
  by (simp add: is_external_def strip_idem)


lemma lower_char_slash: "lower_char c = CHR ''/'' \<longleftrightarrow> c = CHR ''/''"
proof
  assume a: "lower_char c = CHR ''/''"
  show "c = CHR ''/''"
  proof (cases "map_of upper_table c")
    case None
    with a show ?thesis by (simp add: lower_char_def)
  next
    case (Some d)
    then have "(c, d) \<in> set upper_table" by (rule map_of_SomeD)
    moreover have "d = CHR ''/''" using a Some by (simp add: lower_char_def)
    ultimately show ?thesis by (simp add: upper_table_def)
  qed
next
  assume "c = CHR ''/''"
  then show "lower_char c = CHR ''/''" by (simp add: lower_char_def upper_table_def)
qed

lemma lower_char_slash2: "CHR ''/'' = lower_char c \<longleftrightarrow> c = CHR ''/''"
  using lower_char_slash [of c] by auto

lemma strip_Cons_nonspace:
  assumes "\<not> isspace c"
  shows "\<exists>t. strip (c # s) = c # t"
proof -
  have "dropWhile isspace (c # s) = c # s" using assms by simp
  then have "strip (c # s) = rev (dropWhile isspace (rev s @ [c]))" by (simp add: strip_def)
  moreover have "\<exists>u. dropWhile isspace (rev s @ [c]) = u @ [c]"
  proof (cases "\<forall>x\<in>set s. isspace x")
    case True
    then have "dropWhile isspace (rev s @ [c]) = [] @ [c]"
      using assms by (simp add: dropWhile_append)
    then show ?thesis by blast
  next
    case False
    then have "dropWhile isspace (rev s @ [c]) = dropWhile isspace (rev s) @ [c]"
      by (simp add: dropWhile_append)
    then show ?thesis by blast
  qed
  then obtain u where "dropWhile isspace (rev s @ [c]) = u @ [c]" ..
  ultimately have "strip (c # s) = c # rev u" by simp
  then show ?thesis ..
qed

lemma is_external_root:
  assumes "startswith p ''/''"
  shows "is_external p \<longleftrightarrow> startswith (strip p) ''//''"
proof -
  from assms obtain s where p: "p = CHR ''/'' # s" by (auto simp: startswith_Cons)
  obtain t where t: "strip p = CHR ''/'' # t"
    using strip_Cons_nonspace [OF not_space_slash, of s] p by auto
  have l: "lower (strip p) = CHR ''/'' # lower t"
    using t by (simp add: lower_def lower_char_def upper_table_def)
  have "is_external p \<longleftrightarrow> startswith (lower (strip p)) ''//''"
    unfolding is_external_def Let_def l by (simp add: startswith_def)
  also have "\<dots> \<longleftrightarrow> startswith (strip p) ''//''"
    unfolding l t by (cases t) (auto simp: startswith_def lower_def lower_char_slash2)
  finally show ?thesis .
qed

section \<open>Properties of engine 1\<close>

subsection \<open>A template without a backslash is literal\<close>

lemma lits_Inr: "lits cs (Inr t) = Inr (map TLit cs @ t)"
  by (simp add: lits_def)

lemma parse_template_literal:
  "CHR 0x5C \<notin> set t \<Longrightarrow> parse_template t = Inr (map TLit t)"
  by (induction t) (auto simp: lits_Inr)

lemma expand_template_literal: "expand_template (map TLit t) m = t"
  by (induction t) simp_all

lemma sub_double_prefix_literal:
  assumes "CHR 0x5C \<notin> set repo"
  shows "sub_double_prefix repo p =
           Inr (if double_prefix_match repo p
                then ''/'' @ repo @ drop (length (''/'' @ repo @ ''/Cyb3Raya'')) p else p)"
proof -
  have "CHR 0x5C \<notin> set (''/'' @ repo)" using assms by simp
  then have "parse_template (''/'' @ repo) = Inr (map TLit (''/'' @ repo))"
    by (rule parse_template_literal)
  then show ?thesis
    unfolding sub_double_prefix_def by (simp add: expand_template_literal Let_def)
qed

lemma startswith_appendE:
  "startswith s u \<Longrightarrow> s = u @ drop (length u) s"
  by (auto simp: startswith_def prefix_def)

subsection \<open>The rules of \<^verbatim>\<open>normalize_root_path\<close>\<close>

lemma not_external_legacy:
  assumes "strip path = ''/Cyb3Raya'' @ rem"
  shows "\<not> is_external (strip path)"
proof -
  have "startswith (strip path) ''/''" using assms by (simp add: startswith_def)
  then have "is_external (strip path) \<longleftrightarrow> startswith (strip (strip path)) ''//''"
    by (rule is_external_root)
  then have "is_external (strip path) \<longleftrightarrow> startswith (strip path) ''//''"
    by (simp only: strip_idem)
  moreover have "\<not> startswith (strip path) ''//''"
    unfolding assms by (simp add: startswith_def)
  ultimately show ?thesis by simp
qed

text \<open>
  C5. A trimmed path that is \<^verbatim>\<open>/Cyb3Raya\<close> or begins with \<^verbatim>\<open>/Cyb3Raya/\<close>, and does
  not begin with \<^verbatim>\<open>/<repo>\<close> (exactly or followed by a slash), gets \<^verbatim>\<open>/<repo>\<close> in
  place of the leading \<^verbatim>\<open>/Cyb3Raya\<close>; the remainder \<open>rem\<close> is kept, and an empty
  remainder becomes a slash. Such a path is never external. The instance below is the
  example of the specification.
\<close>

theorem C5_legacy_prefix_replaced:
  assumes "strip path = ''/Cyb3Raya'' @ rem"
    and "rem = [] \<or> startswith rem ''/''"
    and "\<not> (strip path = ''/'' @ repo \<or> startswith (strip path) (''/'' @ repo @ ''/''))"
  shows "normalize_root_path path repo = Inr (''/'' @ repo @ (if rem = [] then ''/'' else rem))"
proof -
  have ne: "\<not> is_external (strip path)" using assms(1) by (rule not_external_legacy)
  have sw: "startswith (strip path) ''/''" using assms(1) by (simp add: startswith_def)
  have leg: "strip path = ''/Cyb3Raya'' \<or> startswith (strip path) ''/Cyb3Raya/''"
    using assms(1,2) by (auto simp: startswith_def prefix_def)
  have dr: "drop (length ''/Cyb3Raya'') (strip path) = rem" using assms(1) by simp
  show ?thesis
    unfolding normalize_root_path_def Let_def dr
    using ne sw leg assms(3) by simp
qed

theorem C5_witness:
  "normalize_root_path ''/Cyb3Raya/HTML/b.html'' ''Cyb3Raya-Blog'' = Inr ''/Cyb3Raya-Blog/HTML/b.html''"
proof -
  have s: "strip ''/Cyb3Raya/HTML/b.html'' = ''/Cyb3Raya'' @ ''/HTML/b.html''"
    by (simp add: strip_def isspace_def whitespace_def)
  have n: "\<not> (strip ''/Cyb3Raya/HTML/b.html'' = ''/'' @ ''Cyb3Raya-Blog''
         \<or> startswith (strip ''/Cyb3Raya/HTML/b.html'') (''/'' @ ''Cyb3Raya-Blog'' @ ''/''))"
    by (simp add: strip_def isspace_def whitespace_def startswith_def)
  have r: "''/HTML/b.html'' = [] \<or> startswith ''/HTML/b.html'' ''/''"
    by (simp add: startswith_def)
  show ?thesis using C5_legacy_prefix_replaced [OF s r n] by simp
qed

text \<open>
  C7. A trimmed path that starts with a slash, is not external and matches neither the
  \<^verbatim>\<open>/<repo>\<close> rule nor the \<^verbatim>\<open>/Cyb3Raya\<close> rule is returned with \<^verbatim>\<open>/<repo>\<close> put in
  front of it. The instance below is the example of the specification.
\<close>

theorem C7_other_root_path_prefixed:
  assumes "startswith (strip path) ''/''"
    and "\<not> is_external (strip path)"
    and "\<not> (strip path = ''/'' @ repo \<or> startswith (strip path) (''/'' @ repo @ ''/''))"
    and "\<not> (strip path = ''/Cyb3Raya'' \<or> startswith (strip path) ''/Cyb3Raya/'')"
  shows "normalize_root_path path repo = Inr (''/'' @ repo @ strip path)"
  unfolding normalize_root_path_def Let_def using assms by simp

theorem C7_witness:
  "normalize_root_path ''/CSS/a.css'' ''Cyb3Raya-Blog'' = Inr ''/Cyb3Raya-Blog/CSS/a.css''"
proof -
  have s: "strip ''/CSS/a.css'' = ''/CSS/a.css''"
    by (simp add: strip_def isspace_def whitespace_def)
  have 1: "startswith (strip ''/CSS/a.css'') ''/''" unfolding s by (simp add: startswith_def)
  have 2: "\<not> is_external (strip ''/CSS/a.css'')"
    unfolding s by (simp add: is_external_def strip_def isspace_def whitespace_def lower_def
        lower_char_def upper_table_def startswith_def)
  have 3: "\<not> (strip ''/CSS/a.css'' = ''/'' @ ''Cyb3Raya-Blog''
         \<or> startswith (strip ''/CSS/a.css'') (''/'' @ ''Cyb3Raya-Blog'' @ ''/''))"
    unfolding s by (simp add: startswith_def)
  have 4: "\<not> (strip ''/CSS/a.css'' = ''/Cyb3Raya'' \<or> startswith (strip ''/CSS/a.css'') ''/Cyb3Raya/'')"
    unfolding s by (simp add: startswith_def)
  show ?thesis using C7_other_root_path_prefixed [OF 1 2 3 4] unfolding s by simp
qed

lemma strip_last:
  assumes "strip s = u @ [c]"
  shows "\<not> isspace c"
  using strip_ends [of s] assms by simp

lemma double_prefix_match_trimmed:
  "double_prefix_match repo (strip path) \<longleftrightarrow>
     strip path = ''/'' @ repo @ ''/Cyb3Raya''
     \<or> startswith (strip path) (''/'' @ repo @ ''/Cyb3Raya/'')"
proof -
  let ?m = "''/'' @ repo @ ''/Cyb3Raya''"
  let ?p = "strip path"
  have nl: "drop (length ?m) ?p \<noteq> [CHR 0x0A]" if "startswith ?p ?m"
  proof
    assume "drop (length ?m) ?p = [CHR 0x0A]"
    with startswith_appendE [OF that] have "?p = ?m @ [CHR 0x0A]" by simp
    then have "\<not> isspace (CHR 0x0A)" by (rule strip_last)
    then show False by (simp add: isspace_def whitespace_def)
  qed
  have "double_prefix_match repo ?p \<longleftrightarrow>
          startswith ?p ?m \<and> (startswith (drop (length ?m) ?p) ''/'' \<or> drop (length ?m) ?p = [])"
    unfolding double_prefix_match_def Let_def using nl by blast
  also have "\<dots> \<longleftrightarrow> ?p = ?m \<or> startswith ?p (?m @ ''/'')"
    by (auto simp: startswith_def prefix_def)
  finally show ?thesis by simp
qed

lemma normalize_good_prefix:
  assumes "CHR 0x5C \<notin> set repo"
    and "\<not> is_external (strip path)"
    and "strip path = ''/'' @ repo \<or> startswith (strip path) (''/'' @ repo @ ''/'')"
  shows "normalize_root_path path repo =
           Inr (if double_prefix_match repo (strip path)
                then ''/'' @ repo @ drop (length (''/'' @ repo @ ''/Cyb3Raya'')) (strip path)
                else strip path)"
proof -
  have "startswith (strip path) ''/''" using assms(3) by (auto simp: startswith_def prefix_def)
  then show ?thesis
    unfolding normalize_root_path_def Let_def
    using assms(2,3) sub_double_prefix_literal [OF assms(1)] by simp
qed

text \<open>
  The rule of the source for a path that already has the prefix, for a repository name
  without a backslash: the segment \<^verbatim>\<open>Cyb3Raya\<close> right behind \<^verbatim>\<open>/<repo>\<close> is dropped,
  any other such path is returned as it is (trimmed).
\<close>

lemma normalize_good_prefix_collapse:
  assumes "CHR 0x5C \<notin> set repo"
    and "strip path = ''/'' @ repo @ ''/Cyb3Raya'' @ rest"
    and "rest = [] \<or> startswith rest ''/''"
    and "\<not> is_external (strip path)"
  shows "normalize_root_path path repo = Inr (''/'' @ repo @ rest)"
proof -
  have g: "strip path = ''/'' @ repo \<or> startswith (strip path) (''/'' @ repo @ ''/'')"
    using assms(2) by (simp add: startswith_def)
  have d: "double_prefix_match repo (strip path)"
    unfolding double_prefix_match_trimmed using assms(2,3)
    by (auto simp: startswith_def prefix_def)
  show ?thesis
    using normalize_good_prefix [OF assms(1,4) g] d assms(2) by simp
qed

lemma normalize_good_prefix_unchanged:
  assumes "CHR 0x5C \<notin> set repo"
    and "strip path = ''/'' @ repo \<or> startswith (strip path) (''/'' @ repo @ ''/'')"
    and "\<not> (strip path = ''/'' @ repo @ ''/Cyb3Raya''
           \<or> startswith (strip path) (''/'' @ repo @ ''/Cyb3Raya/''))"
    and "\<not> is_external (strip path)"
  shows "normalize_root_path path repo = Inr (strip path)"
  using normalize_good_prefix [OF assms(1,4,2)] assms(3)
  by (simp add: double_prefix_match_trimmed)

lemma normalize_examples:
  "normalize_root_path ''/Cyb3Raya-Blog/Cyb3Raya/img.png'' ''Cyb3Raya-Blog'' = Inr ''/Cyb3Raya-Blog/img.png''"
  "normalize_root_path ''/Cyb3Raya-Blog/CSS/a.css'' ''Cyb3Raya-Blog'' = Inr ''/Cyb3Raya-Blog/CSS/a.css''"
  by code_simp+

text \<open>
  C6. The claim is for every repository name, and fails for one with a backslash:
  \<^verbatim>\<open>re.sub\<close> reads the replacement \<^verbatim>\<open>f"/{repo}"\<close> as a template, while the pattern
  is built from \<^verbatim>\<open>re.escape(repo)\<close>. With the name \<^verbatim>\<open>a\n\<close> (a backslash and the
  letter n) the path \<^verbatim>\<open>/a\n/Cyb3Raya/x\<close> does not keep its prefix: the two characters
  become one line feed. With the name \<^verbatim>\<open>a\q\<close> the path \<^verbatim>\<open>/a\q/x\<close>, which has no
  segment to drop, is not returned at all: the template does not compile. For a name
  without a backslash the claim holds (\<open>normalize_good_prefix_collapse\<close>,
  \<open>normalize_good_prefix_unchanged\<close> and \<open>normalize_examples\<close>).
\<close>

theorem C6_backslash_in_repo:
  "normalize_root_path (''/a'' @ [CHR 0x5C] @ ''n/Cyb3Raya/x'') (''a'' @ [CHR 0x5C] @ ''n'')
     = Inr (''/a'' @ [CHR 0x0A] @ ''/x'')
   \<and> normalize_root_path (''/a'' @ [CHR 0x5C] @ ''q/x'') (''a'' @ [CHR 0x5C] @ ''q'')
     = Inl TemplateError"
  by code_simp

lemma normalize_not_root:
  "\<not> startswith (strip path) ''/'' \<Longrightarrow> normalize_root_path path repo = Inr path"
  by (simp add: normalize_root_path_def Let_def)

lemma normalize_external:
  "is_external path \<Longrightarrow> normalize_root_path path repo = Inr path"
  by (simp add: normalize_root_path_def Let_def is_external_strip)

lemma normalize_strip:
  assumes "startswith (strip path) ''/''" and "\<not> is_external (strip path)"
  shows "normalize_root_path path repo = normalize_root_path (strip path) repo"
  using assms by (simp add: normalize_root_path_def Let_def strip_idem)

lemma strip_slash_last:
  assumes "s \<noteq> []" and "\<not> isspace (last s)"
  shows "strip (CHR ''/'' # s) = CHR ''/'' # s"
  by (rule strip_fixed) (use assms not_space_slash in simp)

text \<open>
  What \<^verbatim>\<open>normalize_root_path\<close> returns for a root-absolute path that is not external,
  when the repository name has no backslash and does not end in white space: a trimmed
  string that begins with \<^verbatim>\<open>/<repo>\<close>, exactly or followed by a slash.
\<close>

lemma normalize_result_shape:
  assumes nb: "CHR 0x5C \<notin> set repo"
    and cl: "repo = [] \<or> \<not> isspace (last repo)"
    and sw: "startswith (strip path) ''/''"
    and ne: "\<not> is_external (strip path)"
  shows "\<exists>r. normalize_root_path path repo = Inr r \<and> strip r = r
           \<and> (r = ''/'' @ repo \<or> startswith r (''/'' @ repo @ ''/''))"
proof -
  let ?p = "strip path"
  let ?good = "''/'' @ repo"
  have pne: "?p \<noteq> []" using sw by (auto simp: startswith_def)
  have lp: "\<not> isspace (last ?p)" using strip_ends [OF pne] by simp
  have sgood: "strip ?good = ?good"
    by (rule strip_fixed) (use cl not_space_slash in auto)
  have tail: "strip (?good @ t) = ?good @ t \<and> startswith (?good @ t) (?good @ ''/'')"
    if "startswith t ''/''" "\<not> isspace (last t)" for t
  proof -
    from that(1) obtain t' where t: "t = CHR ''/'' # t'" by (auto simp: startswith_Cons)
    have "strip (CHR ''/'' # (repo @ t)) = CHR ''/'' # (repo @ t)"
      by (rule strip_slash_last) (use t that(2) in auto)
    then show ?thesis using t by (simp add: startswith_def)
  qed
  consider (good) "?p = ?good \<or> startswith ?p (?good @ ''/'')"
    | (legacy) "\<not> (?p = ?good \<or> startswith ?p (?good @ ''/''))"
        "?p = ''/Cyb3Raya'' \<or> startswith ?p ''/Cyb3Raya/''"
    | (other) "\<not> (?p = ?good \<or> startswith ?p (?good @ ''/''))"
        "\<not> (?p = ''/Cyb3Raya'' \<or> startswith ?p ''/Cyb3Raya/'')"
    by blast
  then show ?thesis
  proof cases
    case good
    then have g: "?p = ''/'' @ repo \<or> startswith ?p (''/'' @ repo @ ''/'')" by simp
    show ?thesis
    proof (cases "double_prefix_match repo ?p")
      case False
      then have "normalize_root_path path repo = Inr ?p"
        using normalize_good_prefix [OF nb ne g] by simp
      then show ?thesis using g by (simp add: strip_idem)
    next
      case True
      let ?m = "''/'' @ repo @ ''/Cyb3Raya''"
      let ?rest = "drop (length ?m) ?p"
      have r: "normalize_root_path path repo = Inr (?good @ ?rest)"
        using normalize_good_prefix [OF nb ne g] True by simp
      from True have "?p = ?m \<or> startswith ?p (?m @ ''/'')"
        by (simp add: double_prefix_match_trimmed)
      then show ?thesis
      proof
        assume "?p = ?m"
        then have "?rest = []" by simp
        then show ?thesis using r sgood by simp
      next
        assume a: "startswith ?p (?m @ ''/'')"
        then have "startswith ?p ?m" by (auto simp: startswith_def prefix_def)
        then have pm: "?p = ?m @ ?rest" by (rule startswith_appendE)
        have sr: "startswith ?rest ''/''"
          using a by (auto simp: startswith_def prefix_def)
        then have "?rest \<noteq> []" by (auto simp: startswith_def)
        then have "last ?p = last ?rest" by (subst pm) simp
        then have "\<not> isspace (last ?rest)" using lp by simp
        from tail [OF sr this] r show ?thesis by simp
      qed
    qed
  next
    case legacy
    let ?rem = "drop (length ''/Cyb3Raya'') ?p"
    let ?rem' = "if ?rem = [] then ''/'' else ?rem"
    have r: "normalize_root_path path repo = Inr (?good @ ?rem')"
      unfolding normalize_root_path_def Let_def using sw ne legacy by simp
    have "startswith ?rem' ''/'' \<and> \<not> isspace (last ?rem')"
    proof (cases "?rem = []")
      case True
      then show ?thesis using not_space_slash by (simp add: startswith_def)
    next
      case False
      then have "?p \<noteq> ''/Cyb3Raya''" by auto
      with legacy(2) have a: "startswith ?p ''/Cyb3Raya/''" by simp
      then have "startswith ?p ''/Cyb3Raya''" by (auto simp: startswith_def prefix_def)
      then have pm: "?p = ''/Cyb3Raya'' @ ?rem" by (rule startswith_appendE)
      have "startswith ?rem ''/''" using a by (auto simp: startswith_def prefix_def)
      moreover have "last ?p = last ?rem" using False by (subst pm) simp
      ultimately show ?thesis using lp False by simp
    qed
    then show ?thesis using tail [of ?rem'] r by simp
  next
    case other
    have r: "normalize_root_path path repo = Inr (?good @ ?p)"
      unfolding normalize_root_path_def Let_def using sw ne other by simp
    show ?thesis using tail [OF sw lp] r by simp
  qed
qed

lemma normalize_total:
  assumes "CHR 0x5C \<notin> set repo"
  shows "\<exists>r. normalize_root_path path repo = Inr r"
  unfolding normalize_root_path_def Let_def
  by (simp add: sub_double_prefix_literal [OF assms])

text \<open>
  C2, as amended. For a repository name that has no backslash and does not end in white
  space, \<^verbatim>\<open>normalize_root_path\<close> returns a result \<open>r\<close> for every path, and applied to
  \<open>r\<close> it returns \<open>r\<close> again unless \<open>r\<close> begins with \<^verbatim>\<open>/<repo>/Cyb3Raya\<close> followed by a
  slash or by the end: one call drops one \<^verbatim>\<open>Cyb3Raya\<close> segment only.
\<close>

theorem C2_idempotent_unless_doubled:
  assumes nb: "CHR 0x5C \<notin> set repo"
    and cl: "repo = [] \<or> \<not> isspace (last repo)"
  shows "\<exists>r. normalize_root_path p repo = Inr r
           \<and> (\<not> double_prefix_match repo r \<longrightarrow> normalize_root_path r repo = Inr r)"
proof (cases "startswith (strip p) ''/'' \<and> \<not> is_external (strip p)")
  case False
  then have "normalize_root_path p repo = Inr p"
    by (auto simp: normalize_not_root normalize_external is_external_strip)
  then show ?thesis by simp
next
  case True
  then obtain r where r: "normalize_root_path p repo = Inr r" and s: "strip r = r"
    and g: "r = ''/'' @ repo \<or> startswith r (''/'' @ repo @ ''/'')"
    using normalize_result_shape [OF nb cl] by blast
  have "normalize_root_path r repo = Inr r" if nd: "\<not> double_prefix_match repo r"
  proof (cases "is_external r")
    case True
    then show ?thesis by (rule normalize_external)
  next
    case False
    then have "normalize_root_path r repo =
        Inr (if double_prefix_match repo (strip r)
             then ''/'' @ repo @ drop (length (''/'' @ repo @ ''/Cyb3Raya'')) (strip r)
             else strip r)"
      by (intro normalize_good_prefix [OF nb]) (use g s in simp_all)
    then show ?thesis using nd s by simp
  qed
  with r show ?thesis by blast
qed

theorem C2_witness:
  "normalize_root_path ''/CSS/a.css'' ''Cyb3Raya-Blog'' = Inr ''/Cyb3Raya-Blog/CSS/a.css''
   \<and> normalize_root_path ''/Cyb3Raya-Blog/CSS/a.css'' ''Cyb3Raya-Blog''
       = Inr ''/Cyb3Raya-Blog/CSS/a.css''"
proof -
  have nb: "CHR 0x5C \<notin> set ''Cyb3Raya-Blog''" by simp
  have cl: "''Cyb3Raya-Blog'' = [] \<or> \<not> isspace (last ''Cyb3Raya-Blog'')"
    by (simp add: isspace_def whitespace_def)
  have e: "normalize_root_path ''/CSS/a.css'' ''Cyb3Raya-Blog'' = Inr ''/Cyb3Raya-Blog/CSS/a.css''"
    by code_simp
  have nd: "\<not> double_prefix_match ''Cyb3Raya-Blog'' ''/Cyb3Raya-Blog/CSS/a.css''"
    by code_simp
  from C2_idempotent_unless_doubled [OF nb cl, of "''/CSS/a.css''"] e nd
  have "normalize_root_path ''/Cyb3Raya-Blog/CSS/a.css'' ''Cyb3Raya-Blog''
          = Inr ''/Cyb3Raya-Blog/CSS/a.css''"
    by auto
  with e show ?thesis by simp
qed

theorem C2_counterexample:
  "normalize_root_path ''/Cyb3Raya-Blog/Cyb3Raya/Cyb3Raya/x'' ''Cyb3Raya-Blog''
     = Inr ''/Cyb3Raya-Blog/Cyb3Raya/x''
   \<and> normalize_root_path ''/Cyb3Raya-Blog/Cyb3Raya/x'' ''Cyb3Raya-Blog'' = Inr ''/Cyb3Raya-Blog/x''
   \<and> ''/Cyb3Raya-Blog/x'' \<noteq> ''/Cyb3Raya-Blog/Cyb3Raya/x''"
  by code_simp

subsection \<open>What a match consumes\<close>

lemma rmatch_suffix:
  "rmatch r prev s k = Some x \<Longrightarrow> \<exists>prev' s'. suffix s' s \<and> k prev' s' = Some x"
proof (induction r prev s k arbitrary: x rule: rmatch.induct)
  case (6 a b prev s k)
  from "6.prems" have "rmatch a prev s (\<lambda>prev' s'. rmatch b prev' s' k) = Some x" by simp
  from "6.IH"(2) [OF this] obtain p1 s1 where
    s1: "suffix s1 s" and b: "rmatch b p1 s1 k = Some x" by blast
  from "6.IH"(1) [OF b] obtain p2 s2 where "suffix s2 s1" "k p2 s2 = Some x" by blast
  with s1 show ?case by (meson suffix_order.trans)
next
  case (9 neg cs prev c s k)
  show ?case
  proof (cases "in_class neg cs c")
    case False
    with "9.prems" have "k prev (c # s) = Some x" by simp
    then show ?thesis by blast
  next
    case True
    show ?thesis
    proof (cases "rmatch (Many neg cs) (Some c) s k")
      case None
      with True "9.prems" have "k prev (c # s) = Some x" by simp
      then show ?thesis by blast
    next
      case (Some y)
      with True "9.prems" have "y = x" by simp
      with "9.IH" [OF True] Some obtain p' s' where "suffix s' s" "k p' s' = Some x" by blast
      then show ?thesis by (meson suffix_ConsI)
    qed
  qed
qed (auto split: if_splits option.splits intro: suffix_ConsI)


lemma rmatch_consumes:
  "consumes r \<Longrightarrow> rmatch r prev s k = Some x
     \<Longrightarrow> \<exists>prev' s'. suffix s' s \<and> length s' < length s \<and> k prev' s' = Some x"
proof (induction r prev s k arbitrary: x rule: rmatch.induct)
  case (6 a b prev s k)
  from "6.prems"(2) have m: "rmatch a prev s (\<lambda>prev' s'. rmatch b prev' s' k) = Some x" by simp
  show ?case
  proof (cases "consumes a")
    case True
    from "6.IH"(2) [OF True m] obtain p1 s1 where
      s1: "suffix s1 s" "length s1 < length s" and b: "rmatch b p1 s1 k = Some x" by blast
    from rmatch_suffix [OF b] obtain p2 s2 where s2: "suffix s2 s1" "k p2 s2 = Some x" by blast
    from s1 s2 have "suffix s2 s" "length s2 < length s"
      by (meson suffix_order.trans, meson suffix_length_le le_less_trans)
    with s2 show ?thesis by blast
  next
    case False
    with "6.prems"(1) have cb: "consumes b" by simp
    from rmatch_suffix [OF m] obtain p1 s1 where
      s1: "suffix s1 s" and b: "rmatch b p1 s1 k = Some x" by blast
    from "6.IH"(1) [OF cb b] obtain p2 s2 where
      s2: "suffix s2 s1" "length s2 < length s1" "k p2 s2 = Some x" by blast
    from s1 s2 have "suffix s2 s" "length s2 < length s"
      by (meson suffix_order.trans, meson suffix_length_le less_le_trans)
    with s2 show ?thesis by blast
  qed
qed (auto split: if_splits option.splits intro: suffix_ConsI)

lemma match_at_parts:
  assumes "match_at pat prev s = Some (m, prev', rest)"
  shows "\<exists>s1 s2. suffix s1 s \<and> suffix s2 s1 \<and> suffix rest s2
           \<and> (consumes (prefix_group pat) \<longrightarrow> length s1 < length s)
           \<and> m = \<lparr> m_prefix = take (length s - length s1) s,
                     m_path = take (length s1 - length s2) s1,
                     m_suffix = take (length s2 - length rest) s2 \<rparr>"
proof -
  let ?k3 = "\<lambda>s1 s2 (p3 :: char option) s3.
       Some (\<lparr> m_prefix = take (length s - length s1) s,
                m_path = take (length s1 - length s2) s1,
                m_suffix = take (length s2 - length s3) s2 \<rparr>, p3, s3)"
  let ?k2 = "\<lambda>s1 p2 s2. rmatch (suffix_group pat) p2 s2 (?k3 s1 s2)"
  let ?k1 = "\<lambda>p1 s1. rmatch (path_group pat) p1 s1 (?k2 s1)"
  have a: "rmatch (prefix_group pat) prev s ?k1 = Some (m, prev', rest)"
    using assms by (simp add: match_at_def)
  have "\<exists>p1 s1. suffix s1 s \<and> (consumes (prefix_group pat) \<longrightarrow> length s1 < length s)
          \<and> ?k1 p1 s1 = Some (m, prev', rest)"
  proof (cases "consumes (prefix_group pat)")
    case True
    from rmatch_consumes [OF True a] show ?thesis by blast
  next
    case False
    with rmatch_suffix [OF a] show ?thesis by blast
  qed
  then obtain p1 s1 where s1: "suffix s1 s"
      "consumes (prefix_group pat) \<longrightarrow> length s1 < length s"
    and b: "?k1 p1 s1 = Some (m, prev', rest)" by blast
  from rmatch_suffix [OF b] obtain p2 s2 where s2: "suffix s2 s1"
    and c: "?k2 s1 p2 s2 = Some (m, prev', rest)" by blast
  from rmatch_suffix [OF c] obtain p3 s3 where s3: "suffix s3 s2"
    and d: "?k3 s1 s2 p3 s3 = Some (m, prev', rest)" by blast
  from d have "rest = s3" and "m = \<lparr> m_prefix = take (length s - length s1) s,
                     m_path = take (length s1 - length s2) s1,
                     m_suffix = take (length s2 - length s3) s2 \<rparr>" by auto
  with s1 s2 s3 show ?thesis by blast
qed

lemma match_at_concat:
  assumes "match_at pat prev s = Some (m, prev', rest)"
  shows "m_prefix m @ m_path m @ m_suffix m @ rest = s"
proof -
  from match_at_parts [OF assms] obtain s1 s2 where
    "suffix s1 s" "suffix s2 s1" "suffix rest s2"
    and m: "m = \<lparr> m_prefix = take (length s - length s1) s,
                  m_path = take (length s1 - length s2) s1,
                  m_suffix = take (length s2 - length rest) s2 \<rparr>" by blast
  then have "s = take (length s - length s1) s @ s1"
    "s1 = take (length s1 - length s2) s1 @ s2"
    "s2 = take (length s2 - length rest) s2 @ rest"
    by (simp_all add: suffix_take)
  then show ?thesis unfolding m by (metis select_convs(1,2,3) append_assoc)
qed

lemma match_at_consumes:
  assumes "pat = ATTR_PATTERN \<or> pat = CSS_URL_PATTERN"
    and "match_at pat prev s = Some (m, prev', rest)"
  shows "length rest < length s"
proof -
  have c: "consumes (prefix_group pat)"
    using assms(1) by (auto simp: ATTR_PATTERN_def CSS_URL_PATTERN_def seq_def lit_def)
  from match_at_parts [OF assms(2)] c obtain s1 s2 where
    "suffix s1 s" "suffix s2 s1" "suffix rest s2" "length s1 < length s" by blast
  then show ?thesis by (meson suffix_length_le le_less_trans order_trans)
qed

subsection \<open>The scan of \<^verbatim>\<open>re.sub\<close>\<close>

lemma prepend_Inr: "prepend u (Inr (out, st)) = Inr (u @ out, st)"
  by (simp add: prepend_def)

lemma prepend_eq_Inr:
  "prepend u r = Inr (out, st) \<longleftrightarrow> (\<exists>out'. r = Inr (out', st) \<and> out = u @ out')"
  by (auto simp: prepend_def split: sum.splits)

text \<open>The scan at a character: either a match starts there, or the character is passed.\<close>

lemma scan_cases:
  obtains (pass) "re_finditer pat prev (c # cs) = re_finditer pat (Some c) cs"
      "re_sub pat repl prev (c # cs) st = prepend [c] (re_sub pat repl (Some c) cs st)"
  | (hit) m prev' rest where "match_at pat prev (c # cs) = Some (m, prev', rest)"
      "length rest \<le> length cs"
      "re_finditer pat prev (c # cs) = m # re_finditer pat prev' rest"
      "re_sub pat repl prev (c # cs) st =
         (case repl m st of Inl e \<Rightarrow> Inl e
          | Inr (new, st') \<Rightarrow> prepend new (re_sub pat repl prev' rest st'))"
proof (cases "match_at pat prev (c # cs)")
  case None
  then show ?thesis by (intro pass) simp_all
next
  case (Some x)
  obtain m prev' rest where x: "x = (m, prev', rest)" by (cases x) auto
  show ?thesis
  proof (cases "length rest \<le> length cs")
    case True
    with Some x show ?thesis by (intro hit [of m prev' rest]) simp_all
  next
    case False
    with Some x show ?thesis by (intro pass) simp_all
  qed
qed

lemma re_sub_unchanged:
  assumes "\<forall>m\<in>set (re_finditer pat prev s). \<forall>st.
             repl m st = Inr (m_prefix m @ m_path m @ m_suffix m, st)"
  shows "re_sub pat repl prev s st = Inr (s, st)"
  using assms
proof (induction s arbitrary: prev rule: length_induct)
  case (1 s)
  show ?case
  proof (cases s)
    case Nil
    then show ?thesis by simp
  next
    case (Cons c cs)
    show ?thesis
    proof (cases rule: scan_cases [of pat prev c cs repl st])
      case pass
      have "re_sub pat repl (Some c) cs st = Inr (cs, st)"
        using "1.IH" "1.prems" pass(1) Cons by simp
      then show ?thesis using pass(2) Cons by (simp add: prepend_Inr)
    next
      case (hit m prev' rest)
      have r: "repl m st = Inr (m_prefix m @ m_path m @ m_suffix m, st)"
        using "1.prems" hit(3) Cons by simp
      have "re_sub pat repl prev' rest st = Inr (rest, st)"
        using "1.IH" "1.prems" hit(2,3) Cons by simp
      then show ?thesis
        using hit(4) r match_at_concat [OF hit(1)] Cons by (simp add: prepend_Inr)
    qed
  qed
qed

subsection \<open>\<^verbatim>\<open>rewrite_text\<close>\<close>

lemma repl_css_eq: "repl_css = repl_attr"
  by (intro ext) (simp add: repl_css_def repl_attr_def)

lemma repl_attr_not_root:
  "\<not> startswith (strip (m_path m)) ''/''
     \<Longrightarrow> repl_attr repo m cnt = Inr (m_prefix m @ m_path m @ m_suffix m, cnt)"
  by (simp add: repl_attr_def)

lemma repl_attr_unchanged:
  "repl_attr repo m cnt = Inr (m_prefix m @ m_path m @ m_suffix m, cnt)
     \<longleftrightarrow> (startswith (strip (m_path m)) ''/''
            \<longrightarrow> normalize_root_path (m_path m) repo = Inr (m_path m))"
  by (auto simp: repl_attr_def Let_def split: sum.splits)

lemma repl_attr_count:
  assumes "repl_attr repo m cnt = Inr (new, cnt')"
  shows "cnt \<le> cnt' \<and> (cnt' = cnt \<longrightarrow>
           (startswith (strip (m_path m)) ''/''
              \<longrightarrow> normalize_root_path (m_path m) repo = Inr (m_path m)))"
  using assms by (auto simp: repl_attr_def Let_def split: sum.splits if_splits)

lemma re_sub_count:
  assumes "re_sub pat (repl_attr repo) prev s cnt = Inr (out, cnt')"
  shows "cnt \<le> cnt' \<and> (cnt' = cnt \<longrightarrow>
           (\<forall>m\<in>set (re_finditer pat prev s). startswith (strip (m_path m)) ''/''
              \<longrightarrow> normalize_root_path (m_path m) repo = Inr (m_path m)))"
  using assms
proof (induction "length s" arbitrary: s prev cnt out rule: less_induct)
  case less
  show ?case
  proof (cases s)
    case Nil
    with less.prems show ?thesis by simp
  next
    case (Cons c cs)
    from less.prems have e: "re_sub pat (repl_attr repo) prev (c # cs) cnt = Inr (out, cnt')"
      unfolding Cons .
    show ?thesis
    proof (cases rule: scan_cases [of pat prev c cs "repl_attr repo" cnt])
      case pass
      from e have "prepend [c] (re_sub pat (repl_attr repo) (Some c) cs cnt) = Inr (out, cnt')"
        unfolding pass(2) .
      then obtain out' where
        "re_sub pat (repl_attr repo) (Some c) cs cnt = Inr (out', cnt')"
        by (auto simp: prepend_eq_Inr)
      then have "cnt \<le> cnt' \<and> (cnt' = cnt \<longrightarrow>
           (\<forall>m\<in>set (re_finditer pat (Some c) cs). startswith (strip (m_path m)) ''/''
              \<longrightarrow> normalize_root_path (m_path m) repo = Inr (m_path m)))"
        by (intro less.hyps) (simp add: Cons)
      then show ?thesis unfolding Cons pass(1) .
    next
      case (hit m prev' rest)
      from e have "(case repl_attr repo m cnt of Inl e \<Rightarrow> Inl e
          | Inr (new, st') \<Rightarrow> prepend new (re_sub pat (repl_attr repo) prev' rest st'))
          = Inr (out, cnt')"
        unfolding hit(4) .
      then obtain new c1 out' where
        r: "repl_attr repo m cnt = Inr (new, c1)"
        and t: "re_sub pat (repl_attr repo) prev' rest c1 = Inr (out', cnt')"
        by (auto simp: prepend_eq_Inr split: sum.splits)
      from t have a: "c1 \<le> cnt' \<and> (cnt' = c1 \<longrightarrow>
           (\<forall>m\<in>set (re_finditer pat prev' rest). startswith (strip (m_path m)) ''/''
              \<longrightarrow> normalize_root_path (m_path m) repo = Inr (m_path m)))"
        by (intro less.hyps) (use hit(2) in \<open>simp add: Cons\<close>)
      from repl_attr_count [OF r] a show ?thesis unfolding Cons hit(3) by auto
    qed
  qed
qed

lemma rewrite_text_fixed_iff:
  "rewrite_text text repo = Inr (text, 0) \<longleftrightarrow>
     (\<forall>m\<in>set (re_finditer ATTR_PATTERN None text) \<union> set (re_finditer CSS_URL_PATTERN None text).
        startswith (strip (m_path m)) ''/''
          \<longrightarrow> normalize_root_path (m_path m) repo = Inr (m_path m))"
  (is "?L \<longleftrightarrow> ?R")
proof
  assume ?R
  then have "re_sub ATTR_PATTERN (repl_attr repo) None text 0 = Inr (text, 0)"
    "re_sub CSS_URL_PATTERN (repl_css repo) None text 0 = Inr (text, 0)"
    unfolding repl_css_eq by (intro re_sub_unchanged; simp add: repl_attr_unchanged)+
  then show ?L by (simp add: rewrite_text_def)
next
  assume ?L
  then obtain o1 c1 where a: "re_sub ATTR_PATTERN (repl_attr repo) None text 0 = Inr (o1, c1)"
    and c: "re_sub CSS_URL_PATTERN (repl_attr repo) None o1 c1 = Inr (text, 0)"
    by (auto simp: rewrite_text_def repl_css_eq split: sum.splits)
  from re_sub_count [OF a] re_sub_count [OF c] have c1: "c1 = 0" by simp
  with re_sub_count [OF a] have ua: "\<forall>m\<in>set (re_finditer ATTR_PATTERN None text).
      startswith (strip (m_path m)) ''/'' \<longrightarrow> normalize_root_path (m_path m) repo = Inr (m_path m)"
    by simp
  then have "re_sub ATTR_PATTERN (repl_attr repo) None text 0 = Inr (text, 0)"
    by (intro re_sub_unchanged) (simp add: repl_attr_unchanged)
  with a have "o1 = text" by simp
  with re_sub_count [OF c] c1 ua show ?R by auto
qed

section \<open>Properties of engine 2\<close>

lemma apply_loop_append:
  "apply_loop (xs @ ys) c t =
     (case apply_loop xs c t of Inl e \<Rightarrow> Inl e | Inr (c', t') \<Rightarrow> apply_loop ys c' t')"
  by (induction xs arbitrary: c t) (auto simp: Let_def split: sum.splits)

text \<open>
  C10. An empty string among the prefixes is skipped: wherever it stands in the list, the
  result (text and count) is the result for the list without it. In particular the empty
  prefix alone returns the text with count 0, whereas the prefix \<^verbatim>\<open>/\<close>, which is what
  normalising the empty string would give, counts the slashes of the text.
\<close>

theorem C10_empty_prefix_skipped:
  "apply_replacements content (xs @ [] # ys) = apply_replacements content (xs @ ys)
   \<and> apply_replacements content [[]] = Inr (content, 0)
   \<and> apply_replacements ''a/b'' [''''] = Inr (''a/b'', 0)
   \<and> apply_replacements ''a/b'' [''/''] = Inr (''a/b'', 1)"
  by (simp add: apply_replacements_def apply_loop_append normalize_prefix_def startswith_def
      endswith_def py_replace_def py_split_def suffix_to_prefix split: sum.splits)

subsection \<open>\<^verbatim>\<open>str.replace\<close> and \<^verbatim>\<open>str.split\<close>\<close>

lemma replace_scan_absent: "\<not> sublist old s \<Longrightarrow> replace_scan old new s = s"
  by (induction old new s rule: replace_scan.induct) (auto simp: sublist_Cons_right)

lemma split_scan_absent: "\<not> sublist sep s \<Longrightarrow> split_scan sep s = [s]"
  by (induction sep s rule: split_scan.induct) (auto simp: sublist_Cons_right)

lemma split_scan_length: "1 \<le> length (split_scan sep s)"
  by (induction sep s rule: split_scan.induct) (auto simp: Let_def)


lemma scan_at_occurrence:
  assumes "old \<noteq> []" and "prefix old s"
  shows "replace_scan old new s = new @ replace_scan old new (drop (length old) s)"
    and "split_scan old s = [] # split_scan old (drop (length old) s)"
  using assms by (cases s; simp)+


subsection \<open>The loop of \<^verbatim>\<open>apply_replacements\<close>\<close>

lemma normalize_prefix_ne: "normalize_prefix pre \<noteq> []"
  by (auto simp: normalize_prefix_def Let_def startswith_def endswith_def)

lemma normalize_prefix_slashes:
  "startswith (normalize_prefix pre) ''/'' \<and> endswith (normalize_prefix pre) ''/''"
  by (auto simp: normalize_prefix_def Let_def startswith_def endswith_def suffix_def prefix_def)

lemma normalize_prefix_fixed:
  "startswith pre ''/'' \<Longrightarrow> endswith pre ''/'' \<Longrightarrow> normalize_prefix pre = pre"
  by (simp add: normalize_prefix_def)

lemma apply_loop_step:
  assumes "pre \<noteq> []"
  shows "apply_loop (pre # rest) c t =
           apply_loop rest (replace_scan (normalize_prefix pre) ''/'' c)
             (t + (int (length (split_scan (normalize_prefix pre) c)) - 1))"
proof -
  have "max 0 (int (length (split_scan (normalize_prefix pre) c)) - 1)
          = int (length (split_scan (normalize_prefix pre) c)) - 1"
    using split_scan_length [of "normalize_prefix pre" c] by simp
  then show ?thesis
    using assms by (simp add: Let_def py_replace_def py_split_def normalize_prefix_ne)
qed

lemma apply_loop_shift:
  "apply_loop ps c t =
     (case apply_loop ps c 0 of Inl e \<Rightarrow> Inl e | Inr (out, n) \<Rightarrow> Inr (out, t + n))"
proof (induction ps arbitrary: c t)
  case Nil
  then show ?case by simp
next
  case (Cons pre ps)
  show ?case
  proof (cases "pre = []")
    case True
    then show ?thesis using Cons.IH [of c t] by simp
  next
    case False
    let ?c = "replace_scan (normalize_prefix pre) ''/'' c"
    let ?k = "int (length (split_scan (normalize_prefix pre) c)) - 1"
    show ?thesis
      unfolding apply_loop_step [OF False]
      using Cons.IH [of ?c "t + ?k"] Cons.IH [of ?c "0 + ?k"]
      by (auto split: sum.splits)
  qed
qed


lemma apply_loop_absent:
  "\<forall>pre\<in>set ps. pre \<noteq> [] \<longrightarrow> \<not> sublist (normalize_prefix pre) c
     \<Longrightarrow> apply_loop ps c t = Inr (c, t)"
proof (induction ps arbitrary: t)
  case Nil
  then show ?case by simp
next
  case (Cons pre ps)
  show ?case
  proof (cases "pre = []")
    case True
    then show ?thesis using Cons by simp
  next
    case False
    with Cons.prems have "\<not> sublist (normalize_prefix pre) c" by simp
    then show ?thesis
      unfolding apply_loop_step [OF False]
      using Cons by (simp add: replace_scan_absent split_scan_absent)
  qed
qed



subsection \<open>A string between two characters that no prefix contains\<close>

lemma prefix_across_char:
  assumes "q \<notin> set p"
  shows "prefix p (x @ q # y) \<longleftrightarrow> prefix p x"
proof
  assume "prefix p (x @ q # y)"
  then have "prefix p x \<or> (\<exists>us. p = x @ us \<and> prefix us (q # y))"
    by (simp add: prefix_append)
  then show "prefix p x"
  proof
    assume "\<exists>us. p = x @ us \<and> prefix us (q # y)"
    then obtain us where us: "p = x @ us" "prefix us (q # y)" by blast
    show ?thesis
    proof (cases us)
      case Nil
      with us show ?thesis by simp
    next
      case (Cons a as)
      with us have "a = q" by simp
      with Cons us assms show ?thesis by simp
    qed
  qed
next
  assume "prefix p x"
  then show "prefix p (x @ q # y)" by (rule prefix_prefix)
qed

lemma scan_across_char:
  assumes "p \<noteq> []" and "q \<notin> set p"
  shows "replace_scan p new (x @ q # y) = replace_scan p new x @ q # replace_scan p new y
         \<and> length (split_scan p (x @ q # y)) + 1
             = length (split_scan p x) + length (split_scan p y)"
proof (induction x rule: length_induct)
  case (1 x)
  show ?case
  proof (cases x)
    case Nil
    have "\<not> prefix p (q # y)"
      using assms by (cases p) auto
    moreover have "length ((q # hd (split_scan p y)) # tl (split_scan p y))
        = length (split_scan p y)"
      using split_scan_length [of p y] by (cases "split_scan p y") simp_all
    ultimately show ?thesis using Nil by (simp add: Let_def)
  next
    case (Cons c cs)
    show ?thesis
    proof (cases "prefix p (c # cs)")
      case True
      then have le: "length p \<le> length (c # cs)" by (rule prefix_length_le)
      have pp: "prefix p ((c # cs) @ q # y)" using True by (rule prefix_prefix)
      let ?d = "drop (length p) (c # cs)"
      have d: "drop (length p) ((c # cs) @ q # y) = ?d @ q # y"
        unfolding drop_append using le by simp
      have "length ?d < length x" using assms(1) Cons by (cases p) auto
      with 1 have ih: "replace_scan p new (?d @ q # y)
            = replace_scan p new ?d @ q # replace_scan p new y
          \<and> length (split_scan p (?d @ q # y)) + 1
             = length (split_scan p ?d) + length (split_scan p y)" by blast
      have a: "replace_scan p new ((c # cs) @ q # y) = new @ replace_scan p new (?d @ q # y)"
        "split_scan p ((c # cs) @ q # y) = [] # split_scan p (?d @ q # y)"
        using scan_at_occurrence(1) [OF assms(1) pp, of new]
          scan_at_occurrence(2) [OF assms(1) pp] d by simp_all
      have b: "replace_scan p new (c # cs) = new @ replace_scan p new ?d"
        "split_scan p (c # cs) = [] # split_scan p ?d"
        using scan_at_occurrence(1) [OF assms(1) True, of new]
          scan_at_occurrence(2) [OF assms(1) True] by simp_all
      show ?thesis unfolding Cons a b using ih by simp
    next
      case False
      then have np: "\<not> prefix p ((c # cs) @ q # y)"
        using prefix_across_char [OF assms(2), of "c # cs" y] by simp
      have "length cs < length x" using Cons by simp
      with 1 have ih: "replace_scan p new (cs @ q # y)
            = replace_scan p new cs @ q # replace_scan p new y
          \<and> length (split_scan p (cs @ q # y)) + 1
             = length (split_scan p cs) + length (split_scan p y)" by blast
      have l1: "length ((c # hd (split_scan p (cs @ q # y))) # tl (split_scan p (cs @ q # y)))
        = length (split_scan p (cs @ q # y))"
        using split_scan_length [of p "cs @ q # y"] by (cases "split_scan p (cs @ q # y)") simp_all
      have l2: "length ((c # hd (split_scan p cs)) # tl (split_scan p cs))
        = length (split_scan p cs)"
        using split_scan_length [of p cs] by (cases "split_scan p cs") simp_all
      have a: "replace_scan p new ((c # cs) @ q # y) = c # replace_scan p new (cs @ q # y)"
        "length (split_scan p ((c # cs) @ q # y)) = length (split_scan p (cs @ q # y))"
        using np l1 by (simp_all add: Let_def)
      have b: "replace_scan p new (c # cs) = c # replace_scan p new cs"
        "length (split_scan p (c # cs)) = length (split_scan p cs)"
        using False l2 by (simp_all add: Let_def)
      show ?thesis unfolding Cons a b using ih by simp
    qed
  qed
qed

text \<open>A string between two characters that the prefix does not contain.\<close>

lemma scan_between_chars:
  assumes "p \<noteq> []" and "l \<notin> set p" and "r \<notin> set p" and "\<not> sublist p u"
  shows "replace_scan p new (b @ l # u @ r # a)
           = replace_scan p new b @ l # u @ r # replace_scan p new a"
    and "int (length (split_scan p (b @ l # u @ r # a))) - 1
           = (int (length (split_scan p b)) - 1) + (int (length (split_scan p a)) - 1)"
proof -
  have 1: "replace_scan p new (u @ r # a) = u @ r # replace_scan p new a"
    "length (split_scan p (u @ r # a)) + 1 = 1 + length (split_scan p a)"
    using scan_across_char [OF assms(1,3), of new u a] assms(4)
    by (simp_all add: replace_scan_absent split_scan_absent)
  have 2: "replace_scan p new (b @ l # (u @ r # a))
         = replace_scan p new b @ l # replace_scan p new (u @ r # a)"
    "length (split_scan p (b @ l # (u @ r # a))) + 1
         = length (split_scan p b) + length (split_scan p (u @ r # a))"
    using scan_across_char [OF assms(1,2), of new b "u @ r # a"] by simp_all
  show "replace_scan p new (b @ l # u @ r # a)
           = replace_scan p new b @ l # u @ r # replace_scan p new a"
    using 1 2 by simp
  show "int (length (split_scan p (b @ l # u @ r # a))) - 1
           = (int (length (split_scan p b)) - 1) + (int (length (split_scan p a)) - 1)"
    using 1(2) 2(2) by linarith
qed

lemma apply_loop_between_chars:
  assumes "\<forall>pre\<in>set ps. pre \<noteq> [] \<longrightarrow>
      l \<notin> set (normalize_prefix pre) \<and> r \<notin> set (normalize_prefix pre)
      \<and> \<not> sublist (normalize_prefix pre) u"
  shows "\<exists>b' a' nb na. apply_loop ps b 0 = Inr (b', nb) \<and> apply_loop ps a 0 = Inr (a', na)
           \<and> apply_loop ps (b @ l # u @ r # a) t = Inr (b' @ l # u @ r # a', t + nb + na)"
  using assms
proof (induction ps arbitrary: b a t)
  case Nil
  then show ?case by simp
next
  case (Cons pre ps)
  show ?case
  proof (cases "pre = []")
    case True
    then show ?thesis using Cons.IH [of b a t] Cons.prems by simp
  next
    case False
    let ?p = "normalize_prefix pre"
    let ?b = "replace_scan ?p ''/'' b" and ?a = "replace_scan ?p ''/'' a"
    let ?kb = "int (length (split_scan ?p b)) - 1" and ?ka = "int (length (split_scan ?p a)) - 1"
    from Cons.prems False have h: "l \<notin> set ?p" "r \<notin> set ?p" "\<not> sublist ?p u" by simp_all
    note s = scan_between_chars(1) [OF normalize_prefix_ne h, of "''/''" b a]
      scan_between_chars(2) [OF normalize_prefix_ne h, of b a]
    from Cons.prems have "\<forall>pre\<in>set ps. pre \<noteq> [] \<longrightarrow>
      l \<notin> set (normalize_prefix pre) \<and> r \<notin> set (normalize_prefix pre)
      \<and> \<not> sublist (normalize_prefix pre) u" by simp
    from Cons.IH [OF this, of ?b ?a "t + (?kb + ?ka)"] obtain b' a' nb na where
      ih: "apply_loop ps ?b 0 = Inr (b', nb)" "apply_loop ps ?a 0 = Inr (a', na)"
        "apply_loop ps (?b @ l # u @ r # ?a) (t + (?kb + ?ka)) = Inr (b' @ l # u @ r # a', t + (?kb + ?ka) + nb + na)"
      by blast
    have 1: "apply_loop (pre # ps) b 0 = Inr (b', ?kb + nb)"
      unfolding apply_loop_step [OF False]
      by (subst apply_loop_shift) (simp add: ih)
    have 2: "apply_loop (pre # ps) a 0 = Inr (a', ?ka + na)"
      unfolding apply_loop_step [OF False]
      by (subst apply_loop_shift) (simp add: ih)
    have 3: "apply_loop (pre # ps) (b @ l # u @ r # a) t
        = Inr (b' @ l # u @ r # a', t + (?kb + nb) + (?ka + na))"
      unfolding apply_loop_step [OF False] s using ih(3) by (simp add: algebra_simps)
    from 1 2 3 show ?thesis by blast
  qed
qed

subsection \<open>Prefixes of one segment whose occurrences do not overlap\<close>

lemma replace_scan_miss:
  "\<not> prefix p (c # cs) \<Longrightarrow> replace_scan p new (c # cs) = c # replace_scan p new cs"
  by simp

lemma replace_scan_hit:
  "p \<noteq> [] \<Longrightarrow> prefix p s \<Longrightarrow> replace_scan p new s = new @ replace_scan p new (drop (length p) s)"
  by (cases s) simp_all

lemma prefix_slash_Cons:
  assumes "prefix ''/'' p" and "prefix p (c # cs)"
  shows "c = CHR ''/''"
  using assms by (auto simp: prefix_def)

lemma sublist_drop: "sublist x (drop n s) \<Longrightarrow> sublist x s"
  by (metis append_take_drop_id sublist_appendI sublist_order.order_trans suffix_drop suffix_imp_sublist)

lemma prefix_imp_sublist': "prefix x s \<Longrightarrow> sublist x s"
  by (auto simp: prefix_def sublist_def intro: exI [of _ "[]"])

text \<open>A segment without a slash is passed by the scan for a prefix that starts with one.\<close>

lemma replace_scan_skip:
  assumes "prefix ''/'' p" and "CHR ''/'' \<notin> set v"
  shows "replace_scan p new (v @ s) = v @ replace_scan p new s"
  using assms(2)
proof (induction v)
  case Nil
  then show ?case by simp
next
  case (Cons a v)
  then have "a \<noteq> CHR ''/''" by auto
  then have "\<not> prefix p (a # v @ s)" using prefix_slash_Cons [OF assms(1)] by blast
  from replace_scan_miss [OF this] Cons show ?case by simp
qed

lemma replace_scan_segment:
  assumes p: "prefix ''/'' p" and "CHR ''/'' \<notin> set v"
    and "prefix (v @ ''/'') (replace_scan p ''/'' s)"
  shows "prefix (v @ ''/'') s"
  using assms(2,3)
proof (induction v arbitrary: s)
  case Nil
  show ?case
  proof (cases s)
    case Nil
    with Nil.prems show ?thesis by simp
  next
    case (Cons c cs)
    show ?thesis
    proof (cases "prefix p (c # cs)")
      case True
      with prefix_slash_Cons [OF p] show ?thesis unfolding Cons by simp
    next
      case False
      from Nil.prems(2) show ?thesis unfolding Cons replace_scan_miss [OF False] by simp
    qed
  qed
next
  case (Cons a v)
  from Cons.prems(1) have a: "a \<noteq> CHR ''/''" and v: "CHR ''/'' \<notin> set v" by auto
  show ?case
  proof (cases s)
    case Nil
    with Cons.prems(2) show ?thesis by simp
  next
    case (Cons c cs)
    have pne: "p \<noteq> []" using p by auto
    show ?thesis
    proof (cases "prefix p (c # cs)")
      case True
      from Cons.prems(2) a show ?thesis
        unfolding Cons replace_scan_hit [OF pne True] by simp
    next
      case False
      from Cons.prems(2) have "a = c" "prefix (v @ ''/'') (replace_scan p ''/'' cs)"
        unfolding Cons replace_scan_miss [OF False] by simp_all
      with Cons.IH [OF v, of cs] show ?thesis unfolding Cons by simp
    qed
  qed
qed

lemma replace_scan_two_segments:
  assumes p: "prefix ''/'' p"
    and v1: "CHR ''/'' \<notin> set v1" and v2: "CHR ''/'' \<notin> set v2"
    and pre: "prefix (v1 @ ''/'' @ v2 @ ''/'') (replace_scan p ''/'' s)"
  shows "prefix (v1 @ ''/'' @ v2 @ ''/'') s \<or> prefix (v1 @ p) s"
proof -
  have pne: "p \<noteq> []" using p by auto
  have "prefix (v1 @ ''/'') (v1 @ ''/'' @ v2 @ ''/'')" by simp
  with pre have "prefix (v1 @ ''/'') (replace_scan p ''/'' s)"
    using prefix_order.trans by blast
  from replace_scan_segment [OF p v1 this] obtain s' where s: "s = v1 @ CHR ''/'' # s'"
    by (auto simp: prefix_def)
  from pre have b: "prefix (''/'' @ v2 @ ''/'') (replace_scan p ''/'' (CHR ''/'' # s'))"
    unfolding s replace_scan_skip [OF p v1] by simp
  show ?thesis
  proof (cases "prefix p (CHR ''/'' # s')")
    case True
    then show ?thesis unfolding s by simp
  next
    case False
    from b have "prefix (v2 @ ''/'') (replace_scan p ''/'' s')"
      unfolding replace_scan_miss [OF False] by simp
    from replace_scan_segment [OF p v2 this] show ?thesis unfolding s by simp
  qed
qed

text \<open>
  After the replacement of a prefix \<open>p\<close> by a slash, a one-segment string \<open>/v/\<close> occurs
  only if it occurred before, or (when it is \<open>p\<close> itself) if two occurrences overlapped.
\<close>

lemma replace_scan_no_segment:
  assumes p: "prefix ''/'' p" "suffix ''/'' p"
    and v: "CHR ''/'' \<notin> set v"
    and h1: "\<not> sublist (p @ v @ ''/'') s"
    and h2: "''/'' @ v @ ''/'' = p \<or> \<not> sublist (''/'' @ v @ ''/'') s"
  shows "\<not> sublist (''/'' @ v @ ''/'') (replace_scan p ''/'' s)"
  using h1 h2
proof (induction s rule: length_induct)
  case (1 s)
  let ?q = "''/'' @ v @ ''/''"
  have pne: "p \<noteq> []" using p by auto
  show ?case
  proof (cases s)
    case Nil
    then show ?thesis by simp
  next
    case (Cons c cs)
    show ?thesis
    proof (cases "prefix p (c # cs)")
      case True
      let ?d = "drop (length p) (c # cs)"
      have sd: "c # cs = p @ ?d" using True by (metis append_eq_conv_conj prefix_def)
      have r: "replace_scan p ''/'' (c # cs) = CHR ''/'' # replace_scan p ''/'' ?d"
        using replace_scan_hit [OF pne True, of "''/''"] by simp
      have "length ?d < length s" using Cons pne by (cases p) simp_all
      moreover have "\<not> sublist (p @ v @ ''/'') ?d"
        using "1.prems"(1) Cons sublist_drop by blast
      moreover have "?q = p \<or> \<not> sublist ?q ?d"
        using "1.prems"(2) Cons sublist_drop by blast
      ultimately have ih: "\<not> sublist ?q (replace_scan p ''/'' ?d)" using "1.IH" by blast
      have "\<not> prefix ?q (CHR ''/'' # replace_scan p ''/'' ?d)"
      proof
        assume "prefix ?q (CHR ''/'' # replace_scan p ''/'' ?d)"
        then have "prefix (v @ ''/'') (replace_scan p ''/'' ?d)" by simp
        from replace_scan_segment [OF p(1) v this] obtain z where "?d = (v @ ''/'') @ z"
          by (auto simp: prefix_def)
        with sd have "c # cs = [] @ (p @ v @ ''/'') @ z" by simp
        then have "sublist (p @ v @ ''/'') (c # cs)" unfolding sublist_def by blast
        with "1.prems"(1) Cons show False by simp
      qed
      with ih show ?thesis unfolding Cons r by (simp add: sublist_Cons_right)
    next
      case False
      then have r: "replace_scan p ''/'' (c # cs) = c # replace_scan p ''/'' cs"
        by (rule replace_scan_miss)
      have "\<not> sublist (p @ v @ ''/'') cs" "?q = p \<or> \<not> sublist ?q cs"
        using "1.prems" unfolding Cons sublist_Cons_right by blast+
      moreover have "length cs < length s" using Cons by simp
      ultimately have ih: "\<not> sublist ?q (replace_scan p ''/'' cs)" using "1.IH" by blast
      have "\<not> prefix ?q (c # replace_scan p ''/'' cs)"
      proof
        assume a: "prefix ?q (c # replace_scan p ''/'' cs)"
        note a [unfolded append_Cons append_Nil Cons_prefix_Cons]
        then have c: "c = CHR ''/''" and "prefix (v @ ''/'') (replace_scan p ''/'' cs)" by blast+
        from replace_scan_segment [OF p(1) v this(2)] c have pq: "prefix ?q (c # cs)" by simp
        from "1.prems"(2) show False
        proof
          assume e: "?q = p"
          from pq False show False unfolding e by blast
        next
          assume "\<not> sublist ?q s"
          with prefix_imp_sublist' [OF pq] Cons show False by simp
        qed
      qed
      with ih show ?thesis unfolding Cons r sublist_Cons_right by blast
    qed
  qed
qed

text \<open>The same for a string of two segments, \<open>/v1/v2/\<close>.\<close>

lemma replace_scan_no_two_segments:
  assumes p: "prefix ''/'' p" "suffix ''/'' p"
    and v1: "CHR ''/'' \<notin> set v1" and v2: "CHR ''/'' \<notin> set v2"
    and h1: "\<not> sublist (''/'' @ v1 @ ''/'' @ v2 @ ''/'') s"
    and h3: "\<not> sublist (''/'' @ v1 @ p) s"
  shows "\<not> sublist (''/'' @ v1 @ ''/'' @ v2 @ ''/'') (replace_scan p ''/'' s)"
  using h1 h3
proof (induction s rule: length_induct)
  case (1 s)
  let ?w = "v1 @ ''/'' @ v2 @ ''/''"
  let ?q = "''/'' @ ?w"
  have pne: "p \<noteq> []" using p by auto
  obtain p0 where p0: "p = p0 @ ''/''" using p(2) by (auto simp: suffix_def)
  show ?case
  proof (cases s)
    case Nil
    then show ?thesis by simp
  next
    case (Cons c cs)
    show ?thesis
    proof (cases "prefix p (c # cs)")
      case True
      let ?d = "drop (length p) (c # cs)"
      have sd: "c # cs = p @ ?d" using True by (metis append_eq_conv_conj prefix_def)
      have r: "replace_scan p ''/'' (c # cs) = CHR ''/'' # replace_scan p ''/'' ?d"
        using replace_scan_hit [OF pne True, of "''/''"] by simp
      have "length ?d < length s" using Cons pne by (cases p) simp_all
      moreover have "\<not> sublist ?q ?d" "\<not> sublist (''/'' @ v1 @ p) ?d"
        using "1.prems" Cons sublist_drop by blast+
      ultimately have ih: "\<not> sublist ?q (replace_scan p ''/'' ?d)" using "1.IH" by blast
      have "\<not> prefix ?q (CHR ''/'' # replace_scan p ''/'' ?d)"
      proof
        assume "prefix ?q (CHR ''/'' # replace_scan p ''/'' ?d)"
        then have "prefix ?w (replace_scan p ''/'' ?d)" by simp
        from replace_scan_two_segments [OF p(1) v1 v2 this]
        show False
        proof
          assume "prefix ?w ?d"
          then obtain z where "?d = ?w @ z" by (auto simp: prefix_def)
          with sd p0 have "c # cs = p0 @ ?q @ z" by simp
          then have "sublist ?q (c # cs)" unfolding sublist_def by blast
          with "1.prems"(1) Cons show False by simp
        next
          assume "prefix (v1 @ p) ?d"
          then obtain z where "?d = (v1 @ p) @ z" by (auto simp: prefix_def)
          with sd p0 have "c # cs = p0 @ (''/'' @ v1 @ p) @ z" by simp
          then have "sublist (''/'' @ v1 @ p) (c # cs)" unfolding sublist_def by blast
          with "1.prems"(2) Cons show False by simp
        qed
      qed
      with ih show ?thesis unfolding Cons r by (simp add: sublist_Cons_right)
    next
      case False
      then have r: "replace_scan p ''/'' (c # cs) = c # replace_scan p ''/'' cs"
        by (rule replace_scan_miss)
      have "\<not> sublist ?q cs" "\<not> sublist (''/'' @ v1 @ p) cs"
        using "1.prems" unfolding Cons sublist_Cons_right by blast+
      moreover have "length cs < length s" using Cons by simp
      ultimately have ih: "\<not> sublist ?q (replace_scan p ''/'' cs)" using "1.IH" by blast
      have "\<not> prefix ?q (c # replace_scan p ''/'' cs)"
      proof
        assume a: "prefix ?q (c # replace_scan p ''/'' cs)"
        note a' = a [unfolded append_Cons append_Nil Cons_prefix_Cons]
        from a' have c: "c = CHR ''/''" by blast
        from a' [THEN conjunct2] have "prefix ?w (replace_scan p ''/'' cs)" by simp
        from replace_scan_two_segments [OF p(1) v1 v2 this]
        have "prefix ?q (c # cs) \<or> prefix (''/'' @ v1 @ p) (c # cs)" using c by simp
        then have "sublist ?q (c # cs) \<or> sublist (''/'' @ v1 @ p) (c # cs)"
          using prefix_imp_sublist' by blast
        with "1.prems" Cons show False by simp
      qed
      with ih show ?thesis unfolding Cons r sublist_Cons_right by blast
    qed
  qed
qed

lemma one_segment_shape:
  assumes "prefix ''/'' p" and "suffix ''/'' p" and "2 \<le> length p"
  shows "p = ''/'' @ butlast (tl p) @ ''/''" and "tl p = butlast (tl p) @ ''/''"
proof -
  from assms(1) obtain t where t: "p = CHR ''/'' # t" by (auto simp: prefix_def)
  with assms(3) have tne: "t \<noteq> []" by auto
  from assms(2) have "last p = CHR ''/''" by (auto simp: suffix_def)
  with t tne have "last t = CHR ''/''" by simp
  with tne have "t = butlast t @ ''/''" by (metis append_butlast_last_id)
  with t show "p = ''/'' @ butlast (tl p) @ ''/''" "tl p = butlast (tl p) @ ''/''" by simp_all
qed

text \<open>
  One step of the loop, for prefixes of one segment each (a slash, a string without a
  slash, a slash) and a text in which no two occurrences of prefixes overlap.
\<close>

lemma replace_step:
  assumes single: "\<forall>a\<in>P. prefix ''/'' a \<and> suffix ''/'' a \<and> 2 \<le> length a
        \<and> CHR ''/'' \<notin> set (butlast (tl a))"
    and inv: "\<forall>a\<in>P. \<forall>b\<in>P. \<not> sublist (a @ tl b) s"
    and p: "p \<in> P"
  shows "\<forall>a\<in>P. \<forall>b\<in>P. \<not> sublist (a @ tl b) (replace_scan p ''/'' s)"
    and "\<not> sublist p (replace_scan p ''/'' s)"
    and "d \<in> P \<Longrightarrow> \<not> sublist d s \<Longrightarrow> \<not> sublist d (replace_scan p ''/'' s)"
proof -
  have sh: "a = ''/'' @ butlast (tl a) @ ''/''" "tl a = butlast (tl a) @ ''/''"
    "CHR ''/'' \<notin> set (butlast (tl a))" "prefix ''/'' a" "suffix ''/'' a" if "a \<in> P" for a
    using single that one_segment_shape [of a] by blast+
  show "\<forall>a\<in>P. \<forall>b\<in>P. \<not> sublist (a @ tl b) (replace_scan p ''/'' s)"
  proof (intro ballI)
    fix a b assume a: "a \<in> P" and b: "b \<in> P"
    let ?u = "butlast (tl a)" and ?w = "butlast (tl b)"
    define u where "u = butlast (tl a)"
    define w where "w = butlast (tl b)"
    define x where "x = butlast (tl p)"
    have ea: "a = ''/'' @ u @ ''/''" and eb: "tl b = w @ ''/''"
      and ep: "p = ''/'' @ x @ ''/''" "tl p = x @ ''/''"
      using sh(1) [OF a] sh(2) [OF b] sh(1,2) [OF p] unfolding u_def w_def x_def by blast+
    have e: "a @ tl b = ''/'' @ ?u @ ''/'' @ ?w @ ''/''"
      unfolding u_def [symmetric] w_def [symmetric] by (subst ea, subst eb) simp
    have e': "a @ tl p = ''/'' @ ?u @ p"
    proof -
      have "a @ tl p = (''/'' @ u @ ''/'') @ (x @ ''/'')" using ea ep(2) by metis
      also have "\<dots> = ''/'' @ u @ (''/'' @ x @ ''/'')" by simp
      also have "\<dots> = ''/'' @ u @ p" using ep(1) by metis
      finally show ?thesis unfolding u_def .
    qed
    have h1: "\<not> sublist (''/'' @ ?u @ ''/'' @ ?w @ ''/'') s" using inv a b e by metis
    have h3: "\<not> sublist (''/'' @ ?u @ p) s" using inv a p e' by metis
    from replace_scan_no_two_segments [OF sh(4,5) [OF p] sh(3) [OF a] sh(3) [OF b] h1 h3]
    show "\<not> sublist (a @ tl b) (replace_scan p ''/'' s)" unfolding e .
  qed
  have keep: "\<not> sublist d (replace_scan p ''/'' s)"
    if d: "d \<in> P" and dd: "d = p \<or> \<not> sublist d s" for d
  proof -
    let ?v = "butlast (tl d)"
    have e: "d = ''/'' @ ?v @ ''/''" by (rule sh(1) [OF d])
    have "p @ tl d = p @ ?v @ ''/''" using sh(2) [OF d] by metis
    then have h1: "\<not> sublist (p @ ?v @ ''/'') s" using inv p d by metis
    have h2: "''/'' @ ?v @ ''/'' = p \<or> \<not> sublist (''/'' @ ?v @ ''/'') s"
      using dd e by metis
    from replace_scan_no_segment [OF sh(4,5) [OF p] sh(3) [OF d] h1 h2]
    show ?thesis using e by metis
  qed
  from keep [OF p] show "\<not> sublist p (replace_scan p ''/'' s)" by simp
  show "d \<in> P \<Longrightarrow> \<not> sublist d s \<Longrightarrow> \<not> sublist d (replace_scan p ''/'' s)"
    using keep by blast
qed

lemma apply_loop_no_overlap:
  assumes single: "\<forall>a\<in>P. prefix ''/'' a \<and> suffix ''/'' a \<and> 2 \<le> length a
        \<and> CHR ''/'' \<notin> set (butlast (tl a))"
    and inv: "\<forall>a\<in>P. \<forall>b\<in>P. \<not> sublist (a @ tl b) s"
    and ps: "\<forall>pre\<in>set ps. pre \<noteq> [] \<longrightarrow> normalize_prefix pre \<in> P"
    and D: "D \<subseteq> P" "\<forall>d\<in>D. \<not> sublist d s"
    and run: "apply_loop ps s t = Inr (out, n)"
  shows "(\<forall>d\<in>D. \<not> sublist d out)
         \<and> (\<forall>pre\<in>set ps. pre \<noteq> [] \<longrightarrow> \<not> sublist (normalize_prefix pre) out)"
  using inv ps D run
proof (induction ps arbitrary: s t D)
  case Nil
  then show ?case by simp
next
  case (Cons pre ps)
  show ?case
  proof (cases "pre = []")
    case True
    with Cons.prems have "apply_loop ps s t = Inr (out, n)" by simp
    from Cons.IH [OF Cons.prems(1) _ Cons.prems(3,4) this] Cons.prems(2) True
    show ?thesis by simp
  next
    case False
    let ?p = "normalize_prefix pre"
    let ?s = "replace_scan ?p ''/'' s"
    have p: "?p \<in> P" using Cons.prems(2) False by simp
    note st = replace_step [OF single Cons.prems(1) p]
    from Cons.prems(5) have run: "apply_loop ps ?s (t + (int (length (split_scan ?p s)) - 1))
        = Inr (out, n)"
      unfolding apply_loop_step [OF False] .
    have D': "insert ?p D \<subseteq> P" using p Cons.prems(3) by simp
    have ab: "\<forall>d\<in>insert ?p D. \<not> sublist d ?s"
      using st(2) st(3) Cons.prems(3,4) by blast
    have ps': "\<forall>pre\<in>set ps. pre \<noteq> [] \<longrightarrow> normalize_prefix pre \<in> P"
      using Cons.prems(2) by simp
    from Cons.IH [OF st(1) ps' D' ab run] False show ?thesis by simp
  qed
qed

lemma apply_replacements_second_pass:
  assumes single: "\<forall>pre\<in>set ps. pre \<noteq> [] \<longrightarrow>
        2 \<le> length (normalize_prefix pre) \<and> CHR ''/'' \<notin> set (butlast (tl (normalize_prefix pre)))"
    and apart: "\<forall>a\<in>set ps. \<forall>b\<in>set ps. a \<noteq> [] \<and> b \<noteq> [] \<longrightarrow>
        \<not> sublist (normalize_prefix a @ tl (normalize_prefix b)) content"
    and run: "apply_replacements content ps = Inr (out, n)"
  shows "apply_replacements out ps = Inr (out, 0)"
proof -
  let ?P = "normalize_prefix ` {pre \<in> set ps. pre \<noteq> []}"
  have 1: "\<forall>a\<in>?P. prefix ''/'' a \<and> suffix ''/'' a \<and> 2 \<le> length a
        \<and> CHR ''/'' \<notin> set (butlast (tl a))"
    using single normalize_prefix_slashes by (auto simp: startswith_def endswith_def)
  have 2: "\<forall>a\<in>?P. \<forall>b\<in>?P. \<not> sublist (a @ tl b) content" using apart by auto
  have 3: "\<forall>pre\<in>set ps. pre \<noteq> [] \<longrightarrow> normalize_prefix pre \<in> ?P" by auto
  from apply_loop_no_overlap [OF 1 2 3, of "{}" 0 out n] run
  have "\<forall>pre\<in>set ps. pre \<noteq> [] \<longrightarrow> \<not> sublist (normalize_prefix pre) out"
    by (simp add: apply_replacements_def)
  then show ?thesis unfolding apply_replacements_def by (rule apply_loop_absent)
qed

section \<open>Claims about both engines and about the rewriter\<close>




text \<open>
  C8, as amended. The test of the source is on the trimmed string: a path whose trimmed
  form does not start with a slash is returned unchanged by \<^verbatim>\<open>normalize_root_path\<close>; a
  match whose captured path is such a path is replaced by itself and leaves the count as
  it is; and a text in which every match of the two patterns is such a match is returned
  unchanged with count 0. (A path with white space before its slash does not start with
  a slash, and is rewritten.)
\<close>

theorem C8_not_root_absolute_unchanged:
  "(\<not> startswith (strip path) ''/'' \<longrightarrow> normalize_root_path path repo = Inr path)
   \<and> (\<not> startswith (strip (m_path m)) ''/'' \<longrightarrow>
        repl_attr repo m cnt = Inr (m_prefix m @ m_path m @ m_suffix m, cnt)
        \<and> repl_css repo m cnt = Inr (m_prefix m @ m_path m @ m_suffix m, cnt))
   \<and> ((\<forall>m\<in>set (re_finditer ATTR_PATTERN None txt) \<union> set (re_finditer CSS_URL_PATTERN None txt).
          \<not> startswith (strip (m_path m)) ''/'')
        \<longrightarrow> rewrite_text txt repo = Inr (txt, 0))"
proof (intro conjI impI)
  assume "\<not> startswith (strip path) ''/''"
  then show "normalize_root_path path repo = Inr path" by (rule normalize_not_root)
next
  assume a: "\<not> startswith (strip (m_path m)) ''/''"
  then show "repl_attr repo m cnt = Inr (m_prefix m @ m_path m @ m_suffix m, cnt)"
    by (rule repl_attr_not_root)
  with a show "repl_css repo m cnt = Inr (m_prefix m @ m_path m @ m_suffix m, cnt)"
    by (simp add: repl_css_eq)
next
  assume "\<forall>m\<in>set (re_finditer ATTR_PATTERN None txt) \<union> set (re_finditer CSS_URL_PATTERN None txt).
          \<not> startswith (strip (m_path m)) ''/''"
  then show "rewrite_text txt repo = Inr (txt, 0)"
    unfolding rewrite_text_fixed_iff by blast
qed

theorem C8_witness:
  "normalize_root_path '' CSS/a.css'' ''Cyb3Raya-Blog'' = Inr '' CSS/a.css''
   \<and> repl_attr ''Cyb3Raya-Blog'' \<lparr>m_prefix = ''src='' @ DQ, m_path = ''img/b.png'', m_suffix = DQ\<rparr> 3
       = Inr (''src='' @ DQ @ ''img/b.png'' @ DQ, 3)
   \<and> rewrite_text (''<a href='' @ DQ @ ''b.html'' @ DQ @ ''> url(img/c.png)'') ''Cyb3Raya-Blog''
       = Inr (''<a href='' @ DQ @ ''b.html'' @ DQ @ ''> url(img/c.png)'', 0)"
proof -
  have 1: "\<not> startswith (strip '' CSS/a.css'') ''/''" by code_simp
  have 2: "\<not> startswith (strip (m_path \<lparr>m_prefix = ''src='' @ DQ, m_path = ''img/b.png'',
      m_suffix = DQ\<rparr>)) ''/''" by code_simp
  have 3: "\<forall>m\<in>set (re_finditer ATTR_PATTERN None (''<a href='' @ DQ @ ''b.html'' @ DQ @ ''> url(img/c.png)''))
         \<union> set (re_finditer CSS_URL_PATTERN None (''<a href='' @ DQ @ ''b.html'' @ DQ @ ''> url(img/c.png)'')).
          \<not> startswith (strip (m_path m)) ''/''" by code_simp
  from C8_not_root_absolute_unchanged [of "'' CSS/a.css''" "''Cyb3Raya-Blog''"
      "\<lparr>m_prefix = ''src='' @ DQ, m_path = ''img/b.png'', m_suffix = DQ\<rparr>" 3
      "''<a href='' @ DQ @ ''b.html'' @ DQ @ ''> url(img/c.png)''"] 1 2 3
  show ?thesis by simp
qed

theorem C8_counterexample:
  "\<not> startswith '' /x'' ''/''
   \<and> normalize_root_path '' /x'' ''r'' = Inr ''/r/x''
   \<and> rewrite_text (''href='' @ DQ @ '' /x'' @ DQ) ''r'' = Inr (''href='' @ DQ @ ''/r/x'' @ DQ, 1)"
  by code_simp








lemma repl_attr_changed:
  assumes "startswith (strip path) ''/''"
    and "normalize_root_path path repo = Inr r" and "r \<noteq> path"
  shows "repl_attr repo \<lparr>m_prefix = pre, m_path = path, m_suffix = suf\<rparr> cnt
           = Inr (pre @ r @ suf, cnt + 1)"
  using assms by (simp add: repl_attr_def)

text \<open>
  C9. When the trimmed path starts with a slash and is not external, the result of
  \<^verbatim>\<open>normalize_root_path\<close> is its result for the trimmed path, so the white space around
  the raw path has no part in it; a result that differs from the raw path counts as one
  change in either callback of \<^verbatim>\<open>rewrite_text\<close>. For a repository name without a
  backslash that does not end in white space the result is itself trimmed, so it differs
  from every raw path that has white space around it. The last two lines are the example
  of the claim.
\<close>

theorem C9_result_from_trimmed_path:
  "(startswith (strip path) ''/'' \<and> \<not> is_external (strip path) \<longrightarrow>
      normalize_root_path path repo = normalize_root_path (strip path) repo
      \<and> (normalize_root_path path repo = Inr r \<and> r \<noteq> path \<longrightarrow>
           repl_attr repo \<lparr>m_prefix = pre, m_path = path, m_suffix = suf\<rparr> cnt
             = Inr (pre @ r @ suf, cnt + 1)
           \<and> repl_css repo \<lparr>m_prefix = pre, m_path = path, m_suffix = suf\<rparr> cnt
             = Inr (pre @ r @ suf, cnt + 1))
      \<and> (CHR 0x5C \<notin> set repo \<and> (repo = [] \<or> \<not> isspace (last repo)) \<longrightarrow>
           (\<exists>r'. normalize_root_path path repo = Inr r' \<and> strip r' = r'
                 \<and> (path \<noteq> strip path \<longrightarrow> r' \<noteq> path))))
   \<and> normalize_root_path ''  /Cyb3Raya-Blog/x  '' ''Cyb3Raya-Blog'' = Inr ''/Cyb3Raya-Blog/x''
   \<and> rewrite_text (''href='' @ DQ @ ''  /Cyb3Raya-Blog/x  '' @ DQ) ''Cyb3Raya-Blog''
       = Inr (''href='' @ DQ @ ''/Cyb3Raya-Blog/x'' @ DQ, 1)"
proof (intro conjI impI)
  show "normalize_root_path ''  /Cyb3Raya-Blog/x  '' ''Cyb3Raya-Blog'' = Inr ''/Cyb3Raya-Blog/x''"
    by code_simp
  show "rewrite_text (''href='' @ DQ @ ''  /Cyb3Raya-Blog/x  '' @ DQ) ''Cyb3Raya-Blog''
       = Inr (''href='' @ DQ @ ''/Cyb3Raya-Blog/x'' @ DQ, 1)"
    by code_simp
next
  assume a: "startswith (strip path) ''/'' \<and> \<not> is_external (strip path)"
  then show "normalize_root_path path repo = normalize_root_path (strip path) repo"
    by (simp add: normalize_strip)
  {
    assume b: "normalize_root_path path repo = Inr r \<and> r \<noteq> path"
    with a show "repl_attr repo \<lparr>m_prefix = pre, m_path = path, m_suffix = suf\<rparr> cnt
             = Inr (pre @ r @ suf, cnt + 1)"
      by (simp add: repl_attr_changed)
    then show "repl_css repo \<lparr>m_prefix = pre, m_path = path, m_suffix = suf\<rparr> cnt
             = Inr (pre @ r @ suf, cnt + 1)"
      by (simp add: repl_css_eq)
  }
  {
    assume c: "CHR 0x5C \<notin> set repo \<and> (repo = [] \<or> \<not> isspace (last repo))"
    with a normalize_result_shape [of repo path] obtain r' where
      r: "normalize_root_path path repo = Inr r'" "strip r' = r'" by blast
    then have "path \<noteq> strip path \<longrightarrow> r' \<noteq> path" by auto
    with r show "\<exists>r'. normalize_root_path path repo = Inr r' \<and> strip r' = r'
                 \<and> (path \<noteq> strip path \<longrightarrow> r' \<noteq> path)" by blast
  }
qed

theorem C9_witness:
  "normalize_root_path ''  /CSS/a.css '' ''Cyb3Raya-Blog''
     = normalize_root_path ''/CSS/a.css'' ''Cyb3Raya-Blog''
   \<and> repl_attr ''Cyb3Raya-Blog'' \<lparr>m_prefix = ''src='' @ DQ, m_path = ''  /CSS/a.css '',
        m_suffix = DQ\<rparr> 0 = Inr (''src='' @ DQ @ ''/Cyb3Raya-Blog/CSS/a.css'' @ DQ, 1)
   \<and> (\<exists>r'. normalize_root_path ''  /CSS/a.css '' ''Cyb3Raya-Blog'' = Inr r' \<and> strip r' = r'
          \<and> r' \<noteq> ''  /CSS/a.css '')"
proof -
  note t = C9_result_from_trimmed_path [of "''  /CSS/a.css ''" "''Cyb3Raya-Blog''"
      "''/Cyb3Raya-Blog/CSS/a.css''" "''src='' @ DQ" DQ 0]
  have s: "strip ''  /CSS/a.css '' = ''/CSS/a.css''" by code_simp
  have h1: "startswith (strip ''  /CSS/a.css '') ''/'' \<and> \<not> is_external (strip ''  /CSS/a.css '')"
    by code_simp
  have h2: "normalize_root_path ''  /CSS/a.css '' ''Cyb3Raya-Blog'' = Inr ''/Cyb3Raya-Blog/CSS/a.css''
      \<and> ''/Cyb3Raya-Blog/CSS/a.css'' \<noteq> ''  /CSS/a.css ''" by code_simp
  have h3: "CHR 0x5C \<notin> set ''Cyb3Raya-Blog''
      \<and> (''Cyb3Raya-Blog'' = [] \<or> \<not> isspace (last ''Cyb3Raya-Blog''))" by code_simp
  have h4: "''  /CSS/a.css '' \<noteq> strip ''  /CSS/a.css ''" by code_simp
  from t h1 have 1: "normalize_root_path ''  /CSS/a.css '' ''Cyb3Raya-Blog''
      = normalize_root_path (strip ''  /CSS/a.css '') ''Cyb3Raya-Blog''" by blast
  from t h1 h2 have 2: "repl_attr ''Cyb3Raya-Blog'' \<lparr>m_prefix = ''src='' @ DQ,
      m_path = ''  /CSS/a.css '', m_suffix = DQ\<rparr> 0
      = Inr ((''src='' @ DQ) @ ''/Cyb3Raya-Blog/CSS/a.css'' @ DQ, 0 + 1)" by blast
  from t h1 h3 h4 have 3: "\<exists>r'. normalize_root_path ''  /CSS/a.css '' ''Cyb3Raya-Blog'' = Inr r'
      \<and> strip r' = r' \<and> r' \<noteq> ''  /CSS/a.css ''" by blast
  from 1 2 3 show ?thesis unfolding s by simp
qed

end
